theory Spec2Isabelle
  imports Main "HOL-Library.DAList" "HOL-Library.Multiset"
begin

text \<open>
  The event dispatch and batching core of the event processor: the strategy registry, the
  retry helper, the batch service with its per-event retry, the observer fan-out and the
  dispatcher, each embedded from its TypeScript source, followed by the properties proved of
  them.
\<close>

section \<open>Data model (common/types/event.types.ts)\<close>

datatype EventType =
    ORDER_CREATED
  | ORDER_UPDATED
  | ORDER_CANCELLED
  | PAYMENT_CONFIRMED
  | PAYMENT_FAILED
  | STOCK_UPDATED
  | STOCK_RESERVED
  | NOTIFICATION_REQUESTED

text \<open>\<^verbatim>\<open>Object.values(EventType)\<close>: the members in declaration order.\<close>

definition EventType_values :: "EventType list" where
  "EventType_values =
     [ORDER_CREATED, ORDER_UPDATED, ORDER_CANCELLED, PAYMENT_CONFIRMED,
      PAYMENT_FAILED, STOCK_UPDATED, STOCK_RESERVED, NOTIFICATION_REQUESTED]"

text \<open>The string value of a member, as a template literal prints it.\<close>

fun EventType_string :: "EventType \<Rightarrow> string" where
  "EventType_string ORDER_CREATED = ''ORDER_CREATED''"
| "EventType_string ORDER_UPDATED = ''ORDER_UPDATED''"
| "EventType_string ORDER_CANCELLED = ''ORDER_CANCELLED''"
| "EventType_string PAYMENT_CONFIRMED = ''PAYMENT_CONFIRMED''"
| "EventType_string PAYMENT_FAILED = ''PAYMENT_FAILED''"
| "EventType_string STOCK_UPDATED = ''STOCK_UPDATED''"
| "EventType_string STOCK_RESERVED = ''STOCK_RESERVED''"
| "EventType_string NOTIFICATION_REQUESTED = ''NOTIFICATION_REQUESTED''"

text \<open>
  \<^verbatim>\<open>BaseEvent\<close> with its payload. Dates are milliseconds since the epoch; the payload is
  opaque to the dispatching and batching code and is kept as a string.
\<close>

record DomainEvent =
  ev_id :: string
  ev_type :: EventType
  ev_timestamp :: int
  ev_version :: int
  ev_payload :: string

text \<open>A JavaScript \<^verbatim>\<open>Error\<close> object; only its message is ever read.\<close>

datatype error = Error (message: string)

section \<open>The retry helper (common/strategies/event-processor.strategy.ts)\<close>

text \<open>
  An asynchronous operation is a function on the state of the outside world \<open>'w\<close>
  (database, mail gateway, counters of a test double): it returns the new world together
  with either the value the promise is fulfilled with (\<open>Inr\<close>) or the \<^verbatim>\<open>Error\<close> it is
  rejected with (\<open>Inl\<close>).

  What \<^verbatim>\<open>retry\<close> itself does to its environment is recorded as a list of steps, oldest
  first: \<open>Invoke\<close> for a call of the operation, \<open>Sleep ms\<close> for \<^verbatim>\<open>await this.sleep(ms)\<close>.
  Logger output is not modelled.
\<close>

type_synonym ('w, 'a) operation = "'w \<Rightarrow> (error + 'a) \<times> 'w"

datatype retry_step = Invoke | Sleep int

text \<open>
  The \<^verbatim>\<open>for (let attempt = 1; attempt <= maxAttempts; attempt++)\<close> loop of \<^verbatim>\<open>retry\<close>, entered
  at \<open>attempt\<close> with the current \<^verbatim>\<open>lastError\<close> (\<open>None\<close> while it is still unassigned).
  \<^verbatim>\<open>throw lastError\<close> after the loop is the result \<open>Inl lastError\<close>; \<open>Inl None\<close> is
  \<^verbatim>\<open>throw undefined\<close>, which happens when the loop body never ran.
\<close>

function retry_loop ::
  "('w, 'a) operation \<Rightarrow> int \<Rightarrow> int \<Rightarrow> int \<Rightarrow> error option \<Rightarrow> 'w \<Rightarrow> retry_step list
     \<Rightarrow> (error option + 'a) \<times> 'w \<times> retry_step list" where
  "retry_loop operation maxAttempts delay attempt lastError w steps =
     (if attempt \<le> maxAttempts then
        (case operation w of
           (Inr v, w') \<Rightarrow> (Inr v, w', steps @ [Invoke])
         | (Inl err, w') \<Rightarrow>
             retry_loop operation maxAttempts delay (attempt + 1) (Some err) w'
               (steps @ [Invoke] @
                  (if attempt < maxAttempts
                   then [Sleep (delay * 2 ^ nat (attempt - 1))] else [])))
      else (Inl lastError, w, steps))"
  by pat_completeness auto
termination
  by (relation "measure (\<lambda>(operation, maxAttempts, delay, attempt, lastError, w, steps).
        nat (maxAttempts + 1 - attempt))") auto

declare retry_loop.simps [simp del]

definition retry ::
  "('w, 'a) operation \<Rightarrow> int \<Rightarrow> int \<Rightarrow> 'w \<Rightarrow> (error option + 'a) \<times> 'w \<times> retry_step list" where
  "retry operation maxAttempts delay w = retry_loop operation maxAttempts delay 1 None w []"

section \<open>Per-event retry of the batch executor (batch-processor.service.ts)\<close>

text \<open>
  \<^verbatim>\<open>processEventWithRetry(processFn, event, maxRetries = 3)\<close>: the same loop written a second
  time in the batch service, with \<^verbatim>\<open>processFn(event)\<close> as the operation and the delay
  \<^verbatim>\<open>Math.pow(2, attempt - 1) * 1000\<close>.
\<close>

function processEventWithRetry_loop ::
  "(DomainEvent \<Rightarrow> ('w, 'a) operation) \<Rightarrow> DomainEvent \<Rightarrow> int \<Rightarrow> int \<Rightarrow> error option \<Rightarrow> 'w
     \<Rightarrow> retry_step list \<Rightarrow> (error option + 'a) \<times> 'w \<times> retry_step list" where
  "processEventWithRetry_loop processFn event maxRetries attempt lastError w steps =
     (if attempt \<le> maxRetries then
        (case processFn event w of
           (Inr v, w') \<Rightarrow> (Inr v, w', steps @ [Invoke])
         | (Inl err, w') \<Rightarrow>
             processEventWithRetry_loop processFn event maxRetries (attempt + 1) (Some err) w'
               (steps @ [Invoke] @
                  (if attempt < maxRetries
                   then [Sleep (2 ^ nat (attempt - 1) * 1000)] else [])))
      else (Inl lastError, w, steps))"
  by pat_completeness auto
termination
  by (relation "measure (\<lambda>(processFn, event, maxRetries, attempt, lastError, w, steps).
        nat (maxRetries + 1 - attempt))") auto

declare processEventWithRetry_loop.simps [simp del]

definition processEventWithRetry ::
  "(DomainEvent \<Rightarrow> ('w, 'a) operation) \<Rightarrow> DomainEvent \<Rightarrow> int \<Rightarrow> 'w
     \<Rightarrow> (error option + 'a) \<times> 'w \<times> retry_step list" where
  "processEventWithRetry processFn event maxRetries w =
     processEventWithRetry_loop processFn event maxRetries 1 None w []"

section \<open>Reading a run of the retry loop\<close>

text \<open>
  \<open>world_after operation w k\<close> is the world after \<open>k\<close> consecutive calls of the operation
  starting in \<open>w\<close>, and \<open>outcome operation w k\<close> is what call number \<open>k + 1\<close> returns.
\<close>

fun world_after :: "('w, 'a) operation \<Rightarrow> 'w \<Rightarrow> nat \<Rightarrow> 'w" where
  "world_after operation w 0 = w"
| "world_after operation w (Suc k) = world_after operation (snd (operation w)) k"

definition outcome :: "('w, 'a) operation \<Rightarrow> 'w \<Rightarrow> nat \<Rightarrow> error + 'a" where
  "outcome operation w k = fst (operation (world_after operation w k))"

text \<open>
  The steps of a run that calls the operation for attempts \<open>a, a + 1, \<dots>, a + n - 1\<close> and
  sleeps \<open>delay * 2 ^ (attempt - 1)\<close> after each attempt but the last.
\<close>

fun backoff_steps :: "int \<Rightarrow> nat \<Rightarrow> nat \<Rightarrow> retry_step list" where
  "backoff_steps delay a 0 = []"
| "backoff_steps delay a (Suc 0) = [Invoke]"
| "backoff_steps delay a (Suc (Suc n)) =
     Invoke # Sleep (delay * 2 ^ (a - 1)) # backoff_steps delay (Suc a) (Suc n)"

definition invocations :: "retry_step list \<Rightarrow> nat" where
  "invocations steps = length (filter (\<lambda>s. s = Invoke) steps)"

definition sleeps :: "retry_step list \<Rightarrow> int list" where
  "sleeps steps = concat (map (\<lambda>s. case s of Invoke \<Rightarrow> [] | Sleep ms \<Rightarrow> [ms]) steps)"


section \<open>Handlers and the strategy registry (common/factories/event-processor.factory.ts)\<close>

text \<open>
  The \<^verbatim>\<open>EventProcessorStrategy\<close> interface. \<^verbatim>\<open>process\<close> is an asynchronous operation on
  the outside world; the three other methods are read as pure.
\<close>

record 'w EventProcessorStrategy =
  canHandle :: "EventType \<Rightarrow> bool"
  process :: "DomainEvent \<Rightarrow> ('w, unit) operation"
  getBatchSize :: int
  supportsBatchProcessing :: bool

text \<open>
  A JavaScript \<^verbatim>\<open>Map\<close> is an association list with distinct keys: \<^verbatim>\<open>set\<close> on a present key
  replaces the value in place, \<^verbatim>\<open>set\<close> on a new key appends, and iteration follows the list.
  The registry stores thunks \<^verbatim>\<open>() => processor\<close>; the model stores the processor.
\<close>

type_synonym 'w registry = "(EventType, 'w EventProcessorStrategy) alist"

definition getSupportedEventTypesForProcessor ::
  "'w EventProcessorStrategy \<Rightarrow> EventType list" where
  "getSupportedEventTypesForProcessor processor =
     filter (\<lambda>eventType. canHandle processor eventType) EventType_values"

text \<open>\<^verbatim>\<open>initializeRegistry\<close> writes into the registry it finds; it does not clear it.\<close>

definition initializeRegistry ::
  "'w EventProcessorStrategy list \<Rightarrow> 'w registry \<Rightarrow> 'w registry" where
  "initializeRegistry processors processorRegistry =
     fold (\<lambda>processor reg.
             fold (\<lambda>eventType reg'. DAList.update eventType processor reg')
               (getSupportedEventTypesForProcessor processor) reg)
       processors processorRegistry"

text \<open>The constructor: an empty registry, then \<^verbatim>\<open>initializeRegistry\<close>.\<close>

definition ConcreteEventProcessorFactory ::
  "'w EventProcessorStrategy list \<Rightarrow> 'w registry" where
  "ConcreteEventProcessorFactory processors = initializeRegistry processors DAList.empty"

definition createProcessor ::
  "'w registry \<Rightarrow> EventType \<Rightarrow> 'w EventProcessorStrategy option" where
  "createProcessor processorRegistry eventType =
     (case DAList.lookup processorRegistry eventType of
        None \<Rightarrow> None
      | Some processorFactory \<Rightarrow> Some processorFactory)"

definition getSupportedEventTypes :: "'w registry \<Rightarrow> EventType list" where
  "getSupportedEventTypes processorRegistry = map fst (DAList.impl_of processorRegistry)"

section \<open>Observers (common/observers/event-observer.pattern.ts)\<close>

record 'w EventObserver =
  update :: "DomainEvent \<Rightarrow> ('w, unit) operation"
  getInterestedEvents :: "EventType list"
  getName :: string

definition isInterestedIn :: "'w EventObserver \<Rightarrow> EventType \<Rightarrow> bool" where
  "isInterestedIn observer eventType \<longleftrightarrow> eventType \<in> set (getInterestedEvents observer)"

section \<open>The environment of the service\<close>

text \<open>
  The environment holds the outside world, the clock behind \<^verbatim>\<open>new Date()\<close> (milliseconds) and
  the list of calls made so far to handlers and observers, oldest first: \<open>Processed e\<close> for a
  call \<^verbatim>\<open>processor.process(e)\<close>, \<open>Updated name e\<close> for a call \<^verbatim>\<open>observer.update(e)\<close> of the
  observer with that name.

  A call of \<^verbatim>\<open>process\<close> or \<^verbatim>\<open>update\<close> is taken to act on the world at the moment it is made.
\<close>

datatype effect = Processed DomainEvent | Updated string DomainEvent

record 'w env =
  world :: 'w
  clock :: int
  effects :: "effect list"

definition call_process ::
  "(DomainEvent \<Rightarrow> ('w, unit) operation) \<Rightarrow> DomainEvent \<Rightarrow> 'w env \<Rightarrow> (error + unit) \<times> 'w env" where
  "call_process processFn event e =
     (case processFn event (world e) of
        (r, w') \<Rightarrow> (r, e\<lparr>world := w', effects := effects e @ [Processed event]\<rparr>))"

definition call_update ::
  "'w EventObserver \<Rightarrow> DomainEvent \<Rightarrow> 'w env \<Rightarrow> (error + unit) \<times> 'w env" where
  "call_update observer event e =
     (case update observer event (world e) of
        (r, w') \<Rightarrow> (r, e\<lparr>world := w', effects := effects e @ [Updated (getName observer) event]\<rparr>))"

section \<open>Observer fan-out: \<^verbatim>\<open>EventSubject.notify\<close>\<close>

text \<open>
  The body of the asynchronous closure mapped over the interested observers: the
  \<^verbatim>\<open>try\<close> around \<^verbatim>\<open>await observer.update(event)\<close>, whose \<^verbatim>\<open>catch\<close> logs and does not rethrow.
\<close>

definition notification ::
  "'w EventObserver \<Rightarrow> DomainEvent \<Rightarrow> 'w env \<Rightarrow> (error + unit) \<times> 'w env" where
  "notification observer event e =
     (case call_update observer event e of
        (Inr u, e') \<Rightarrow> (Inr (), e')
      | (Inl err, e') \<Rightarrow> (Inr (), e'))"

text \<open>
  \<^verbatim>\<open>xs.map(async x => ...)\<close>: the closures are started in list order; the outcome of each
  promise is collected.
\<close>

fun start_each ::
  "('x \<Rightarrow> 'w env \<Rightarrow> (error + unit) \<times> 'w env) \<Rightarrow> 'x list \<Rightarrow> 'w env
     \<Rightarrow> (error + unit) list \<times> 'w env" where
  "start_each task [] e = ([], e)"
| "start_each task (x # xs) e =
     (case task x e of
        (r, e') \<Rightarrow> (case start_each task xs e' of (rs, e'') \<Rightarrow> (r # rs, e'')))"

text \<open>
  \<^verbatim>\<open>const notificationPromises = interestedObservers.map(async (observer) => ...)\<close>: one
  promise per interested observer, with the outcome of the closure.
\<close>

definition notificationPromises ::
  "'w EventObserver list \<Rightarrow> DomainEvent \<Rightarrow> 'w env \<Rightarrow> (error + unit) list \<times> 'w env" where
  "notificationPromises interestedObservers event e =
     start_each (\<lambda>observer. notification observer event) interestedObservers e"

text \<open>\<^verbatim>\<open>Promise.allSettled\<close> is fulfilled with all the outcomes, whatever they are.\<close>

definition allSettled :: "(error + 'a) list \<Rightarrow> error + (error + 'a) list" where
  "allSettled outcomes = Inr outcomes"

definition notify ::
  "'w EventObserver list \<Rightarrow> DomainEvent \<Rightarrow> 'w env \<Rightarrow> (error + unit) \<times> 'w env" where
  "notify observerList event e =
     (let interestedObservers =
            filter (\<lambda>observer. isInterestedIn observer (ev_type event)) observerList
      in if length interestedObservers = 0 then (Inr (), e)
         else (case notificationPromises interestedObservers event e of
                 (promises, e') \<Rightarrow>
                   (case allSettled promises of
                      Inl err \<Rightarrow> (Inl err, e')
                    | Inr settled \<Rightarrow> (Inr (), e'))))"


section \<open>The batch service (modules/batch/services/batch-processor.service.ts)\<close>

record PendingBatch =
  batch_eventType :: EventType
  events :: "DomainEvent list"
  createdAt :: int
  maxSize :: int

datatype job_status = PENDING | PROCESSING | COMPLETED | FAILED

text \<open>\<^verbatim>\<open>BatchJob\<close>; the identifiers that \<^verbatim>\<open>uuidv4()\<close> hands out are numbered 0, 1, 2, \<dots>\<close>

record BatchJob =
  job_id :: nat
  job_type :: EventType
  job_events :: "DomainEvent list"
  batchSize :: nat
  job_status :: job_status
  job_createdAt :: int
  startedAt :: "int option"
  completedAt :: "int option"
  job_error :: "string option"

subsection \<open>Tasks that run side by side\<close>

text \<open>
  \<^verbatim>\<open>processBatch\<close> starts one call of \<^verbatim>\<open>processEventWithRetry\<close> per event and awaits them with
  \<^verbatim>\<open>Promise.all\<close>. While one call waits, for its handler or in its backoff, the others go
  on, so a call is kept as the frame of its loop: the arguments and the attempt it is making.
  A frame is only ever made at attempt 1 with \<^verbatim>\<open>maxRetries = 3\<close>, and put to sleep when
  \<^verbatim>\<open>attempt < maxRetries\<close>, so the loop condition holds whenever a frame goes on and
  \<^verbatim>\<open>lastError\<close>, when thrown, is the error of the attempt just made. Lemma \<open>task_alone\<close>
  checks the frames against the loop of \<^verbatim>\<open>processEventWithRetry\<close>.
\<close>

record 'w retry_frame =
  fr_processFn :: "DomainEvent \<Rightarrow> ('w, unit) operation"
  fr_event :: DomainEvent
  fr_maxRetries :: int
  fr_attempt :: int

text \<open>
  What a task waits for: \<open>Attempt\<close>, to call \<^verbatim>\<open>processFn(event)\<close>, at its start or when the
  \<^verbatim>\<open>setTimeout\<close> of its backoff fires; \<open>Settles\<close>, for the promise of the call it has made to
  settle with the given outcome.
\<close>

datatype 'w pending =
    Attempt "'w retry_frame"
  | Settles "'w retry_frame" "error + unit"

text \<open>
  The tasks that the runtime has in hand, each with the time at which it goes on and with
  whether the \<^verbatim>\<open>Promise.all\<close> under way is the one that awaits it. A settlement records that a
  task has come to its end: when, whether it was awaited, of which event, and how.
\<close>

type_synonym 'w queue = "(int \<times> bool \<times> 'w pending) list"

type_synonym settlement = "int \<times> bool \<times> DomainEvent \<times> (error + unit)"

definition is_awaited :: "int \<times> bool \<times> 'x \<Rightarrow> bool" where
  "is_awaited x = fst (snd x)"

text \<open>
  The queue is ordered by the time its entries fall due; entries due at the same time go on
  in the order in which they were added.
\<close>

fun add_timer :: "int \<times> 'x \<Rightarrow> (int \<times> 'x) list \<Rightarrow> (int \<times> 'x) list" where
  "add_timer t [] = [t]"
| "add_timer t (u # q) = (if fst u \<le> fst t then u # add_timer t q else t # u # q)"

text \<open>
  The loop of \<^verbatim>\<open>processEventWithRetry\<close> once \<^verbatim>\<open>await processFn(event)\<close> has settled: \<^verbatim>\<open>return\<close>
  when it is fulfilled; in the \<^verbatim>\<open>catch\<close>, the \<^verbatim>\<open>setTimeout\<close> of the backoff when
  \<^verbatim>\<open>attempt < maxRetries\<close>, and otherwise the end of the loop and \<^verbatim>\<open>throw lastError\<close>.
\<close>

definition settle ::
  "bool \<Rightarrow> 'w retry_frame \<Rightarrow> error + unit \<Rightarrow> 'w queue \<Rightarrow> 'w env
     \<Rightarrow> settlement option \<times> 'w queue \<times> 'w env" where
  "settle aw fr out q e =
     (case out of
        Inr u \<Rightarrow> (Some (clock e, aw, fr_event fr, Inr ()), q, e)
      | Inl err \<Rightarrow>
          if fr_attempt fr < fr_maxRetries fr
          then (None,
                add_timer (clock e + 2 ^ nat (fr_attempt fr - 1) * 1000, aw,
                           Attempt (fr\<lparr>fr_attempt := fr_attempt fr + 1\<rparr>)) q,
                e)
          else (Some (clock e, aw, fr_event fr, Inl err), q, e))"

text \<open>
  One turn of the runtime: the entry at the head of the queue goes on, at the time it is due
  or now if that time has passed. \<open>lat event w\<close> is the time that the promise of a call
  \<^verbatim>\<open>processFn(event)\<close> made in the world \<open>w\<close> takes to settle. With \<open>lat event w = 0\<close> the promise
  is settled by the time the call returns and the task goes on at once; otherwise the task
  waits in the queue for the settlement. The call acts on the world when it is made.
\<close>

definition turn ::
  "(DomainEvent \<Rightarrow> 'w \<Rightarrow> nat) \<Rightarrow> int \<times> bool \<times> 'w pending \<Rightarrow> 'w queue \<Rightarrow> 'w env
     \<Rightarrow> settlement option \<times> 'w queue \<times> 'w env" where
  "turn lat x q e =
     (case x of
        (due, aw, Attempt fr) \<Rightarrow>
          (case call_process (fr_processFn fr) (fr_event fr) (e\<lparr>clock := max (clock e) due\<rparr>) of
             (out, e') \<Rightarrow>
               if lat (fr_event fr) (world e) = 0 then settle aw fr out q e'
               else (None,
                     add_timer (clock e' + int (lat (fr_event fr) (world e)), aw,
                                Settles fr out) q,
                     e'))
      | (due, aw, Settles fr out) \<Rightarrow> settle aw fr out q (e\<lparr>clock := max (clock e) due\<rparr>))"

text \<open>The error that rejects \<^verbatim>\<open>Promise.all\<close>: that of an awaited task that has been rejected.\<close>

definition rejection :: "settlement option \<Rightarrow> error option" where
  "rejection st =
     (case st of
        None \<Rightarrow> None
      | Some (time, aw, event, out) \<Rightarrow>
          (case out of Inl err \<Rightarrow> if aw then Some err else None | Inr u \<Rightarrow> None))"

text \<open>A bound on the turns that an entry of the queue still takes.\<close>

definition turns_left :: "int \<times> bool \<times> 'w pending \<Rightarrow> nat" where
  "turns_left x =
     (case snd (snd x) of
        Attempt fr \<Rightarrow> 2 * nat (fr_maxRetries fr + 1 - fr_attempt fr) + 2
      | Settles fr out \<Rightarrow> 2 * nat (fr_maxRetries fr + 1 - fr_attempt fr) + 1)"

text \<open>
  \<^verbatim>\<open>await Promise.all(processingPromises)\<close>. The runtime takes its turns until the promise is
  settled: it is fulfilled when no awaited task is left in the queue, and rejected as soon
  as one awaited task is rejected. The entries still in the queue at that moment are handed
  back: they are not cancelled.
\<close>

function await_all ::
  "(DomainEvent \<Rightarrow> 'w \<Rightarrow> nat) \<Rightarrow> 'w queue \<Rightarrow> 'w env \<Rightarrow> (error + unit) \<times> 'w queue \<times> 'w env" where
  "await_all lat [] e = (Inr (), [], e)"
| "await_all lat (x # q) e =
     (if \<not> list_ex is_awaited (x # q) then (Inr (), x # q, e)
      else (case turn lat x q e of
              (st, q', e') \<Rightarrow>
                (case rejection st of
                   Some err \<Rightarrow> (Inl err, q', e')
                 | None \<Rightarrow> await_all lat q' e')))"
  by pat_completeness auto
termination
proof (relation "measure (\<lambda>(lat, q, e). sum_list (map turns_left q))", goal_cases)
  case 1
  show ?case by simp
next
  case (2 lat x q e st y q' e')
  have weight: "sum_list (map turns_left (add_timer t r)) = turns_left t + sum_list (map turns_left r)"
    for t :: "int \<times> bool \<times> 'w pending" and r
    by (induction r) auto
  from 2 have "turn lat x q e = (st, q', e')" by simp
  then have "sum_list (map turns_left q') < turns_left x + sum_list (map turns_left q)"
    by (auto simp: turn_def settle_def turns_left_def weight
        split: prod.splits pending.splits sum.splits if_splits)
  then show ?case by simp
qed

text \<open>
  The runtime taking its turns until no task is left, as it does when nothing awaits them:
  each task goes on to its end. The settlements are returned in the order in which they
  occur.
\<close>

function run_timers ::
  "(DomainEvent \<Rightarrow> 'w \<Rightarrow> nat) \<Rightarrow> 'w queue \<Rightarrow> 'w env \<Rightarrow> settlement list \<times> 'w env" where
  "run_timers lat [] e = ([], e)"
| "run_timers lat (x # q) e =
     (case turn lat x q e of
        (st, q', e') \<Rightarrow>
          (case run_timers lat q' e' of
             (log, e'') \<Rightarrow> ((case st of None \<Rightarrow> [] | Some settled \<Rightarrow> [settled]) @ log, e'')))"
  by pat_completeness auto
termination
proof (relation "measure (\<lambda>(lat, q, e). sum_list (map turns_left q))", goal_cases)
  case 1
  show ?case by simp
next
  case (2 lat x q e st y q' e')
  have weight: "sum_list (map turns_left (add_timer t r)) = turns_left t + sum_list (map turns_left r)"
    for t :: "int \<times> bool \<times> 'w pending" and r
    by (induction r) auto
  from 2 have "turn lat x q e = (st, q', e')" by simp
  then have "sum_list (map turns_left q') < turns_left x + sum_list (map turns_left q)"
    by (auto simp: turn_def settle_def turns_left_def weight
        split: prod.splits pending.splits sum.splits if_splits)
  then show ?case by simp
qed

declare await_all.simps [simp del] run_timers.simps [simp del]


subsection \<open>State of the running application\<close>

text \<open>
  The factory and the observer list are singletons shared by the dispatcher and the batch
  service, so one record holds them next to the two maps of the batch service.
  \<open>uuid_counter\<close> is the next identifier \<^verbatim>\<open>uuidv4()\<close> hands out. \<open>timers\<close> are the tasks that
  the runtime has in hand when no \<^verbatim>\<open>processBatch\<close> is under way: those of batches whose
  \<^verbatim>\<open>Promise.all\<close> has been rejected before they had settled. \<open>processTime\<close> is the time that
  the promise of a call \<^verbatim>\<open>process(event)\<close> takes to settle.
\<close>

record 'w system =
  processorRegistry :: "'w registry"
  observers :: "'w EventObserver list"
  pendingBatches :: "(EventType, PendingBatch) alist"
  activeBatches :: "(nat, BatchJob) alist"
  batchTimeout :: int
  uuid_counter :: nat
  timers :: "(int \<times> 'w pending) list"
  processTime :: "DomainEvent \<Rightarrow> 'w \<Rightarrow> nat"
  env :: "'w env"

subsection \<open>\<^verbatim>\<open>processBatch\<close>\<close>

text \<open>
  The job object sits in \<^verbatim>\<open>activeBatches\<close> while its status is written, so the write is an
  update of the map entry. The calls of \<^verbatim>\<open>processEventWithRetry\<close> are made in the order of the
  events, before anything else that the runtime has in hand goes on; while \<^verbatim>\<open>processBatch\<close>
  awaits them, the tasks left by earlier batches go on as they fall due. The \<^verbatim>\<open>setTimeout\<close>
  of the \<^verbatim>\<open>finally\<close> block, which removes the job a minute later, is the separate step
  \<open>evictBatch\<close>.
\<close>

definition processBatch :: "EventType \<Rightarrow> 'w system \<Rightarrow> 'w system" where
  "processBatch eventType s =
     (case DAList.lookup (pendingBatches s) eventType of
        None \<Rightarrow> s
      | Some batch \<Rightarrow>
          if length (events batch) = 0 then s
          else
            (let batchJob =
                   \<lparr>job_id = uuid_counter s,
                    job_type = eventType,
                    job_events = events batch,
                    batchSize = length (events batch),
                    job_status = PROCESSING,
                    job_createdAt = createdAt batch,
                    startedAt = Some (clock (env s)),
                    completedAt = None,
                    job_error = None\<rparr>;
                 s1 = s\<lparr>pendingBatches := DAList.delete eventType (pendingBatches s),
                        uuid_counter := Suc (uuid_counter s),
                        activeBatches :=
                          DAList.update (job_id batchJob) batchJob (activeBatches s)\<rparr>
             in case createProcessor (processorRegistry s1) eventType of
                  None \<Rightarrow>
                    s1\<lparr>activeBatches := DAList.update (job_id batchJob)
                          (batchJob\<lparr>job_status := FAILED,
                                     job_error := Some (''No processor found for event type: '' @
                                                         EventType_string eventType),
                                     completedAt := Some (clock (env s1))\<rparr>)
                          (activeBatches s1)\<rparr>
                | Some processor \<Rightarrow>
                    (case await_all (processTime s1)
                            (map (\<lambda>event. (clock (env s1), True,
                                    Attempt \<lparr>fr_processFn = process processor, fr_event = event,
                                             fr_maxRetries = 3, fr_attempt = 1\<rparr>))
                               (events batch)
                             @ map (\<lambda>(due, task). (due, False, task)) (timers s1))
                            (env s1) of
                       (Inr u, q, e') \<Rightarrow>
                         s1\<lparr>activeBatches := DAList.update (job_id batchJob)
                               (batchJob\<lparr>job_status := COMPLETED,
                                          completedAt := Some (clock e')\<rparr>)
                               (activeBatches s1),
                            timers := map (\<lambda>(due, aw, task). (due, task)) q,
                            env := e'\<rparr>
                     | (Inl err, q, e') \<Rightarrow>
                         s1\<lparr>activeBatches := DAList.update (job_id batchJob)
                               (batchJob\<lparr>job_status := FAILED,
                                          job_error := Some (message err),
                                          completedAt := Some (clock e')\<rparr>)
                               (activeBatches s1),
                            timers := map (\<lambda>(due, aw, task). (due, task)) q,
                            env := e'\<rparr>)))"

definition evictBatch :: "nat \<Rightarrow> 'w system \<Rightarrow> 'w system" where
  "evictBatch jobId s = s\<lparr>activeBatches := DAList.delete jobId (activeBatches s)\<rparr>"

text \<open>The runtime left alone until no task is in hand any more.\<close>

definition fireTimers :: "'w system \<Rightarrow> 'w system" where
  "fireTimers s =
     (case run_timers (processTime s) (map (\<lambda>(due, task). (due, False, task)) (timers s))
             (env s) of
        (log, e') \<Rightarrow> s\<lparr>timers := [], env := e'\<rparr>)"

subsection \<open>\<^verbatim>\<open>addEventToBatch\<close>, the timeout sweep and the forced flush\<close>

definition addEventToBatch :: "DomainEvent \<Rightarrow> 'w system \<Rightarrow> 'w system" where
  "addEventToBatch event s =
     (case createProcessor (processorRegistry s) (ev_type event) of
        None \<Rightarrow> s
      | Some processor \<Rightarrow>
          if \<not> supportsBatchProcessing processor then s
          else
            (let limit = getBatchSize processor;
                 batch = (case DAList.lookup (pendingBatches s) (ev_type event) of
                            None \<Rightarrow> \<lparr>batch_eventType = ev_type event, events = [],
                                     createdAt = clock (env s), maxSize = limit\<rparr>
                          | Some b \<Rightarrow> b);
                 batch' = batch\<lparr>events := events batch @ [event]\<rparr>;
                 s1 = s\<lparr>pendingBatches :=
                          DAList.update (ev_type event) batch' (pendingBatches s)\<rparr>
             in if int (length (events batch')) \<ge> maxSize batch'
                then processBatch (ev_type event) s1
                else s1))"

definition processTimedOutBatches :: "'w system \<Rightarrow> 'w system" where
  "processTimedOutBatches s =
     (let now = clock (env s);
          timedOutBatches =
            map fst (filter (\<lambda>(eventType, batch).
                               now - createdAt batch \<ge> batchTimeout s \<and> length (events batch) > 0)
                       (DAList.impl_of (pendingBatches s)))
      in if length timedOutBatches > 0 then fold processBatch timedOutBatches s else s)"

definition forceBatchProcessing :: "EventType option \<Rightarrow> 'w system \<Rightarrow> 'w system" where
  "forceBatchProcessing eventType s =
     (case eventType of
        Some t \<Rightarrow> processBatch t s
      | None \<Rightarrow> fold processBatch (map fst (DAList.impl_of (pendingBatches s))) s)"

subsection \<open>\<^verbatim>\<open>getBatchStatistics\<close>\<close>

record BatchStatistics =
  stat_pendingBatches :: nat
  stat_activeBatches :: nat
  totalPendingEvents :: nat
  batchesByType :: "(EventType, nat) alist"

definition getBatchStatistics :: "'w system \<Rightarrow> BatchStatistics" where
  "getBatchStatistics s =
     (case fold (\<lambda>(eventType, batch) (byType, pending).
                   (DAList.update eventType (length (events batch)) byType,
                    pending + length (events batch)))
             (DAList.impl_of (pendingBatches s)) (DAList.empty, 0) of
        (byType, pending) \<Rightarrow>
          \<lparr>stat_pendingBatches = length (DAList.impl_of (pendingBatches s)),
           stat_activeBatches = length (DAList.impl_of (activeBatches s)),
           totalPendingEvents = pending,
           batchesByType = byType\<rparr>)"

section \<open>The dispatcher: \<^verbatim>\<open>EventProcessorService.processEvent\<close>\<close>

text \<open>
  The \<^verbatim>\<open>try\<close> block; its \<^verbatim>\<open>catch\<close> logs and rethrows, so an error raised inside is the error
  of the whole call.
\<close>

definition processEvent :: "DomainEvent \<Rightarrow> 'w system \<Rightarrow> (error + unit) \<times> 'w system" where
  "processEvent event s =
     (case createProcessor (processorRegistry s) (ev_type event) of
        None \<Rightarrow>
          (Inl (Error (''No processor found for event type: '' @
                         EventType_string (ev_type event))), s)
      | Some processor \<Rightarrow>
          (case (if supportsBatchProcessing processor
                 then (Inr (), addEventToBatch event s)
                 else (case call_process (process processor) event (env s) of
                         (r, e') \<Rightarrow> (r, s\<lparr>env := e'\<rparr>))) of
             (Inl err, s1) \<Rightarrow> (Inl err, s1)
           | (Inr u, s1) \<Rightarrow>
               (case notify (observers s1) event (env s1) of
                  (r, e') \<Rightarrow> (r, s1\<lparr>env := e'\<rparr>))))"


section \<open>Invariant of the pending batches\<close>

text \<open>
  What holds of the batch stored under the key \<open>t\<close>: it is the batch of \<open>t\<close>, all its events
  have type \<open>t\<close>, and it holds at least one event and fewer than \<open>maxSize\<close>.
\<close>

definition batch_invariant :: "EventType \<Rightarrow> PendingBatch \<Rightarrow> bool" where
  "batch_invariant t batch \<longleftrightarrow>
     batch_eventType batch = t
     \<and> list_all (\<lambda>event. ev_type event = t) (events batch)
     \<and> 1 \<le> length (events batch)
     \<and> int (length (events batch)) \<le> maxSize batch - 1"

definition pending_invariant :: "'w system \<Rightarrow> bool" where
  "pending_invariant s \<longleftrightarrow>
     list_all (\<lambda>(t, batch). batch_invariant t batch) (DAList.impl_of (pendingBatches s))"

text \<open>
  \<open>createdAt_kept s s'\<close>: every batch pending in \<open>s'\<close> has the \<open>createdAt\<close> it had in \<open>s\<close>, or,
  when \<open>s\<close> had no batch under that key, the time at which the step from \<open>s\<close> began.
\<close>

definition createdAt_kept :: "'w system \<Rightarrow> 'w system \<Rightarrow> bool" where
  "createdAt_kept s s' \<longleftrightarrow>
     list_all (\<lambda>(t, batch').
        createdAt batch' = (case DAList.lookup (pendingBatches s) t of
                              None \<Rightarrow> clock (env s)
                            | Some batch \<Rightarrow> createdAt batch))
       (DAList.impl_of (pendingBatches s'))"

section \<open>Reading a run of a batch\<close>

text \<open>
  \<open>batch_tasks processFn now es\<close>: the tasks that \<^verbatim>\<open>processBatch\<close> starts at the time \<open>now\<close> for
  the events \<open>es\<close>. \<open>left_over ts\<close>: the tasks \<open>ts\<close> that the runtime had in hand before, which
  \<^verbatim>\<open>processBatch\<close> does not await. \<open>orphan x\<close>: the task or the settlement \<open>x\<close>, no longer
  awaited. \<open>task_event x\<close>: the event that the task \<open>x\<close> processes.
\<close>

definition batch_tasks ::
  "(DomainEvent \<Rightarrow> ('w, unit) operation) \<Rightarrow> int \<Rightarrow> DomainEvent list \<Rightarrow> 'w queue" where
  "batch_tasks processFn now es =
     map (\<lambda>event. (now, True, Attempt \<lparr>fr_processFn = processFn, fr_event = event,
                                        fr_maxRetries = 3, fr_attempt = 1\<rparr>)) es"

definition left_over :: "(int \<times> 'w pending) list \<Rightarrow> 'w queue" where
  "left_over ts = map (\<lambda>(due, task). (due, False, task)) ts"

definition orphan :: "int \<times> bool \<times> 'x \<Rightarrow> int \<times> bool \<times> 'x" where
  "orphan x = (fst x, False, snd (snd x))"

definition task_event :: "int \<times> bool \<times> 'w pending \<Rightarrow> DomainEvent" where
  "task_event x =
     (case snd (snd x) of Attempt fr \<Rightarrow> fr_event fr | Settles fr out \<Rightarrow> fr_event fr)"

text \<open>
  What \<^verbatim>\<open>Promise.all\<close> is, told from the settlements of the tasks in the order in which they
  occur: \<open>promise_all n log\<close> awaits \<open>n\<close> of the tasks of \<open>log\<close>, those marked as awaited. It is
  rejected by the first of them that is rejected, with that error, and fulfilled by the last
  of them when all \<open>n\<close> are fulfilled. It returns the verdict, the time of the settlement that
  gave it, and the settlements that come after. With nothing to await it is fulfilled at
  once; a log that ends before \<open>n\<close> awaited tasks have settled does not occur.
\<close>

fun promise_all ::
  "nat \<Rightarrow> settlement list \<Rightarrow> (error + unit) \<times> int option \<times> settlement list" where
  "promise_all 0 log = (Inr (), None, log)"
| "promise_all (Suc n) [] = (Inr (), None, [])"
| "promise_all (Suc n) ((time, aw, event, out) # log) =
     (if \<not> aw then promise_all (Suc n) log
      else (case out of
              Inl err \<Rightarrow> (Inl err, Some time, log)
            | Inr u \<Rightarrow> if n = 0 then (Inr (), Some time, log) else promise_all n log))"

text \<open>
  \<open>waited lat operation w k\<close>: the time that \<open>k\<close> consecutive calls of the operation take to
  settle, the first made in the world \<open>w\<close>, when a call made in the world \<open>v\<close> takes \<open>lat v\<close>.
\<close>

fun waited :: "('w \<Rightarrow> nat) \<Rightarrow> ('w, 'a) operation \<Rightarrow> 'w \<Rightarrow> nat \<Rightarrow> nat" where
  "waited lat operation w 0 = 0"
| "waited lat operation w (Suc k) = lat w + waited lat operation (snd (operation w)) k"

section \<open>Test doubles\<close>

text \<open>
  The two mock operations of \<^verbatim>\<open>event-processor.strategy.spec.ts\<close>; the world is the number of
  calls made so far.
\<close>

definition flaky_operation :: "(nat, string) operation" where
  "flaky_operation attemptCount =
     (if Suc attemptCount < 3 then Inl (Error ''Temporary failure'') else Inr ''success'',
      Suc attemptCount)"

definition failing_operation :: "(nat, string) operation" where
  "failing_operation calls = (Inl (Error ''Persistent failure''), Suc calls)"

text \<open>
  Handlers: the order handler of the application (batches of 25) with a \<^verbatim>\<open>process\<close> that always
  succeeds, and \<^verbatim>\<open>MockEventProcessorStrategy\<close> of the strategy test (the defaults of the base
  class: batch size 10, no batch processing). The world counts the calls.
\<close>

definition orderProcessor :: "nat EventProcessorStrategy" where
  "orderProcessor =
     \<lparr>canHandle = (\<lambda>eventType. eventType \<in> set [ORDER_CREATED, ORDER_UPDATED, ORDER_CANCELLED]),
      process = (\<lambda>event calls. (Inr (), Suc calls)),
      getBatchSize = 25,
      supportsBatchProcessing = True\<rparr>"

definition mockProcessor :: "nat EventProcessorStrategy" where
  "mockProcessor =
     \<lparr>canHandle = (\<lambda>eventType. eventType = ORDER_CREATED),
      process = (\<lambda>event calls.
        (if ev_type event = ORDER_CREATED then Inr () else Inl (Error ''Unsupported event type''),
         Suc calls)),
      getBatchSize = 10,
      supportsBatchProcessing = False\<rparr>"

text \<open>
  Observers: the audit observer, interested in every event type, and
  \<^verbatim>\<open>MockNotificationObserver\<close> of the observer test with \<^verbatim>\<open>shouldThrow = true\<close>.
\<close>

definition auditObserver :: "nat EventObserver" where
  "auditObserver =
     \<lparr>update = (\<lambda>event calls. (Inr (), Suc calls)),
      getInterestedEvents = EventType_values,
      getName = ''AuditObserver''\<rparr>"

definition mockNotificationObserver :: "nat EventObserver" where
  "mockNotificationObserver =
     \<lparr>update = (\<lambda>event calls. (Inl (Error ''Mock observer error''), Suc calls)),
      getInterestedEvents = [NOTIFICATION_REQUESTED],
      getName = ''MockNotificationObserver''\<rparr>"

definition test_event :: "string \<Rightarrow> EventType \<Rightarrow> string \<Rightarrow> DomainEvent" where
  "test_event i t p = \<lparr>ev_id = i, ev_type = t, ev_timestamp = 0, ev_version = 1, ev_payload = p\<rparr>"

text \<open>
  The application after start-up: the factory is constructed with no processors, then
  \<^verbatim>\<open>onModuleInit\<close> registers the processors and attaches the observers.
\<close>

definition startup ::
  "'w EventProcessorStrategy list \<Rightarrow> 'w EventObserver list \<Rightarrow> 'w \<Rightarrow> 'w system" where
  "startup processors observerList w =
     \<lparr>processorRegistry = initializeRegistry processors (ConcreteEventProcessorFactory []),
      observers = observerList,
      pendingBatches = DAList.empty,
      activeBatches = DAList.empty,
      batchTimeout = 30000,
      uuid_counter = 0,
      timers = [],
      processTime = (\<lambda>event w'. 0),
      env = \<lparr>world = w, clock = 0, effects = []\<rparr>\<rparr>"

text \<open>
  A handler for stock events that works in batches of two; its \<^verbatim>\<open>process\<close> rejects the events
  whose payload is \<^verbatim>\<open>bad\<close>, at every attempt.
\<close>

definition stockProcessor :: "nat EventProcessorStrategy" where
  "stockProcessor =
     \<lparr>canHandle = (\<lambda>eventType. eventType = STOCK_UPDATED),
      process = (\<lambda>event calls.
        (if ev_payload event = ''bad'' then Inl (Error (''cannot process '' @ ev_id event))
         else Inr (),
         Suc calls)),
      getBatchSize = 2,
      supportsBatchProcessing = True\<rparr>"


text \<open>
  A handler that is down for its first two calls: \<^verbatim>\<open>process\<close> rejects while the world has
  counted fewer than two calls, and succeeds from then on.
\<close>

definition recoveringProcessor :: "nat EventProcessorStrategy" where
  "recoveringProcessor =
     \<lparr>canHandle = (\<lambda>eventType. eventType = STOCK_RESERVED),
      process = (\<lambda>event calls.
        (if calls < 2 then Inl (Error ''Service unavailable'') else Inr (), Suc calls)),
      getBatchSize = 2,
      supportsBatchProcessing = True\<rparr>"

text \<open>
  Two runs of the stock handler on two events that it rejects. In the first the events are
  submitted one after the other, and the handler answers at once. In the second they are
  already pending, and every call of the handler takes three seconds to settle.
\<close>

definition failed_stock_batch :: "nat system" where
  "failed_stock_batch =
     fold addEventToBatch
       [test_event ''evt-1'' STOCK_UPDATED ''bad'', test_event ''evt-2'' STOCK_UPDATED ''bad'']
       (startup [stockProcessor] [] 0)"

definition slow_stock_batch :: "nat system" where
  "slow_stock_batch =
     (startup [stockProcessor] [] 0)
       \<lparr>processTime := (\<lambda>event calls. 3000),
        pendingBatches := DAList.update STOCK_UPDATED
          \<lparr>batch_eventType = STOCK_UPDATED,
           events = [test_event ''evt-1'' STOCK_UPDATED ''bad'',
                     test_event ''evt-2'' STOCK_UPDATED ''bad''],
           createdAt = 0, maxSize = 2\<rparr> DAList.empty\<rparr>"

section \<open>The retry helper: properties\<close>

lemma outcome_0: "outcome operation w 0 = fst (operation w)"
  by (simp add: outcome_def)

lemma outcome_Suc: "outcome operation w (Suc k) = outcome operation (snd (operation w)) k"
  by (simp add: outcome_def)

lemma retry_loop_succeeds:
  "1 \<le> a \<Longrightarrow> a + int n \<le> maxAttempts \<Longrightarrow>
   (\<forall>k < n. isl (outcome operation w k)) \<Longrightarrow> outcome operation w n = Inr v \<Longrightarrow>
   retry_loop operation maxAttempts delay a lastError w steps =
     (Inr v, world_after operation w (Suc n), steps @ backoff_steps delay (nat a) (Suc n))"
proof (induction n arbitrary: a w steps lastError)
  case 0
  then obtain w' where "operation w = (Inr v, w')"
    by (cases "operation w") (simp add: outcome_0)
  with 0 show ?case
    by (subst retry_loop.simps) simp
next
  case (Suc n)
  from Suc.prems(3) have "isl (outcome operation w 0)" by blast
  then obtain err w' where op: "operation w = (Inl err, w')"
    by (cases "operation w"; cases "fst (operation w)") (auto simp: outcome_0)
  have later: "\<forall>k < n. isl (outcome operation w' k)"
    using Suc.prems(3) op by (auto simp: outcome_Suc dest: spec [where x = "Suc k" for k])
  have last: "outcome operation w' n = Inr v"
    using Suc.prems(4) op by (simp add: outcome_Suc)
  have ih: "retry_loop operation maxAttempts delay (a + 1) (Some err) w'
              (steps @ [Invoke, Sleep (delay * 2 ^ nat (a - 1))]) =
            (Inr v, world_after operation w' (Suc n),
             (steps @ [Invoke, Sleep (delay * 2 ^ nat (a - 1))]) @
               backoff_steps delay (nat (a + 1)) (Suc n))"
    using Suc.prems(1,2) by (intro Suc.IH later last) auto
  have na: "nat (a + 1) = Suc (nat a)" "nat (a - 1) = nat a - 1"
    using Suc.prems(1) by auto
  show ?case
    using Suc.prems(1,2) op ih
    by (subst retry_loop.simps) (simp add: na)
qed

lemma retry_loop_exhausts:
  "1 \<le> a \<Longrightarrow> a + int n = maxAttempts \<Longrightarrow>
   (\<forall>k < n. isl (outcome operation w k)) \<Longrightarrow> outcome operation w n = Inl e \<Longrightarrow>
   retry_loop operation maxAttempts delay a lastError w steps =
     (Inl (Some e), world_after operation w (Suc n), steps @ backoff_steps delay (nat a) (Suc n))"
proof (induction n arbitrary: a w steps lastError)
  case 0
  then obtain w' where "operation w = (Inl e, w')"
    by (cases "operation w") (simp add: outcome_0)
  with 0 show ?case
    by (subst retry_loop.simps, simp, subst retry_loop.simps, simp)
next
  case (Suc n)
  from Suc.prems(3) have "isl (outcome operation w 0)" by blast
  then obtain err w' where op: "operation w = (Inl err, w')"
    by (cases "operation w"; cases "fst (operation w)") (auto simp: outcome_0)
  have later: "\<forall>k < n. isl (outcome operation w' k)"
    using Suc.prems(3) op by (auto simp: outcome_Suc dest: spec [where x = "Suc k" for k])
  have last: "outcome operation w' n = Inl e"
    using Suc.prems(4) op by (simp add: outcome_Suc)
  have ih: "retry_loop operation maxAttempts delay (a + 1) (Some err) w'
              (steps @ [Invoke, Sleep (delay * 2 ^ nat (a - 1))]) =
            (Inl (Some e), world_after operation w' (Suc n),
             (steps @ [Invoke, Sleep (delay * 2 ^ nat (a - 1))]) @
               backoff_steps delay (nat (a + 1)) (Suc n))"
    using Suc.prems(1,2) by (intro Suc.IH later last) auto
  have na: "nat (a + 1) = Suc (nat a)" "nat (a - 1) = nat a - 1"
    using Suc.prems(1) by auto
  show ?case
    using Suc.prems(1,2) op ih
    by (subst retry_loop.simps) (simp add: na)
qed

lemma invocations_backoff_steps: "invocations (backoff_steps delay a n) = n"
  by (induction delay a n rule: backoff_steps.induct) (simp_all add: invocations_def)

lemma sleeps_backoff_steps:
  "sleeps (backoff_steps delay a n) = map (\<lambda>attempt. delay * 2 ^ (attempt - 1)) [a ..< a + (n - 1)]"
  by (induction delay a n rule: backoff_steps.induct) (simp_all add: sleeps_def upt_rec)

lemma backoff_steps_Nil: "backoff_steps delay a n = [] \<longleftrightarrow> n = 0"
  by (induction delay a n rule: backoff_steps.induct) simp_all

lemma last_backoff_steps: "0 < n \<Longrightarrow> last (backoff_steps delay a n) = Invoke"
  by (induction delay a n rule: backoff_steps.induct) (simp_all add: backoff_steps_Nil)

text \<open>
  Claim C3. For every operation and every \<open>maxAttempts = M \<ge> 1\<close>: when the operation fails
  \<open>N - 1\<close> times and then succeeds, with \<open>N \<le> M\<close>, \<^verbatim>\<open>retry\<close> returns the success value after
  exactly \<open>N\<close> calls; when the first \<open>M\<close> calls all fail, it makes exactly \<open>M\<close> calls and
  throws the error of the last one. In both cases it sleeps \<open>delay * 2 ^ (attempt - 1)\<close>
  between two consecutive attempts (attempts counted from 1) and the last step is a call, so
  there is no sleep after the final attempt.
\<close>

theorem retry_attempts_and_backoff:
  "(1 \<le> N \<and> int N \<le> M \<and> (\<forall>k < N - 1. isl (outcome operation w k))
      \<and> outcome operation w (N - 1) = Inr v
    \<longrightarrow> retry operation M delay w = (Inr v, world_after operation w N, backoff_steps delay 1 N))
   \<and> (1 \<le> M \<and> (\<forall>k < nat M. isl (outcome operation w k))
      \<and> outcome operation w (nat M - 1) = Inl e
    \<longrightarrow> retry operation M delay w =
          (Inl (Some e), world_after operation w (nat M), backoff_steps delay 1 (nat M)))
   \<and> invocations (backoff_steps delay 1 n) = n
   \<and> sleeps (backoff_steps delay 1 n) = map (\<lambda>attempt. delay * 2 ^ (attempt - 1)) [1 ..< n]
   \<and> (0 < n \<longrightarrow> last (backoff_steps delay 1 n) = Invoke)"
proof (intro conjI impI)
  assume h: "1 \<le> N \<and> int N \<le> M \<and> (\<forall>k < N - 1. isl (outcome operation w k))
      \<and> outcome operation w (N - 1) = Inr v"
  then obtain n where n: "N = Suc n" by (cases N) auto
  from h n have "retry_loop operation M delay 1 None w [] =
     (Inr v, world_after operation w (Suc n), [] @ backoff_steps delay (nat 1) (Suc n))"
    by (intro retry_loop_succeeds) auto
  then show "retry operation M delay w =
     (Inr v, world_after operation w N, backoff_steps delay 1 N)"
    by (simp add: retry_def n)
next
  assume h: "1 \<le> M \<and> (\<forall>k < nat M. isl (outcome operation w k))
      \<and> outcome operation w (nat M - 1) = Inl e"
  then obtain n where n: "nat M = Suc n" by (cases "nat M") auto
  from h n have "retry_loop operation M delay 1 None w [] =
     (Inl (Some e), world_after operation w (Suc n), [] @ backoff_steps delay (nat 1) (Suc n))"
    by (intro retry_loop_exhausts) auto
  then show "retry operation M delay w =
     (Inl (Some e), world_after operation w (nat M), backoff_steps delay 1 (nat M))"
    by (simp add: retry_def n)
next
  show "invocations (backoff_steps delay 1 n) = n"
    by (rule invocations_backoff_steps)
  show "sleeps (backoff_steps delay 1 n) = map (\<lambda>attempt. delay * 2 ^ (attempt - 1)) [1 ..< n]"
    using sleeps_backoff_steps [of delay 1 n] by (cases n) simp_all
  show "0 < n \<Longrightarrow> last (backoff_steps delay 1 n) = Invoke"
    by (rule last_backoff_steps)
qed

theorem retry_attempts_and_backoff_witness:
  "retry flaky_operation 3 100 0 =
     (Inr ''success'', 3, [Invoke, Sleep 100, Invoke, Sleep 200, Invoke])
   \<and> retry failing_operation 2 100 0 =
     (Inl (Some (Error ''Persistent failure'')), 2, [Invoke, Sleep 100, Invoke])
   \<and> invocations (backoff_steps 100 1 3) = 3
   \<and> sleeps (backoff_steps 100 1 3) = [100, 200]
   \<and> last (backoff_steps 100 1 3) = Invoke"
proof -
  have three: "(3 :: nat) = Suc (Suc (Suc 0))" and two: "(2 :: nat) = Suc (Suc 0)"
    by simp_all
  have ok: "1 \<le> (3 :: nat) \<and> int 3 \<le> 3
      \<and> (\<forall>k < 3 - 1. isl (outcome flaky_operation 0 k))
      \<and> outcome flaky_operation 0 (3 - 1) = Inr ''success''"
    by (auto simp: outcome_def flaky_operation_def two less_Suc_eq)
  have ko: "(1 :: int) \<le> 2 \<and> (\<forall>k < nat 2. isl (outcome failing_operation 0 k))
      \<and> outcome failing_operation 0 (nat 2 - 1) = Inl (Error ''Persistent failure'')"
    by (auto simp: outcome_def failing_operation_def)
  from ok retry_attempts_and_backoff [where N = 3 and M = 3 and operation = flaky_operation
      and w = 0 and v = "''success''" and delay = 100 and n = 3]
  have a: "retry flaky_operation 3 100 0 =
      (Inr ''success'', world_after flaky_operation 0 3, backoff_steps 100 1 3)"
    and c: "invocations (backoff_steps 100 1 3) = 3"
      "sleeps (backoff_steps 100 1 3) = map (\<lambda>attempt. 100 * 2 ^ (attempt - 1)) [1 ..< 3]"
      "last (backoff_steps 100 1 3) = Invoke"
    by simp_all
  from ko retry_attempts_and_backoff [where M = 2 and operation = failing_operation
      and w = 0 and delay = 100 and e = "Error ''Persistent failure''"]
  have b: "retry failing_operation 2 100 0 =
      (Inl (Some (Error ''Persistent failure'')), world_after failing_operation 0 (nat 2),
       backoff_steps 100 1 (nat 2))"
    by simp
  show ?thesis
    using a b c by (simp add: three two flaky_operation_def failing_operation_def upt_rec)
qed

lemma processEventWithRetry_loop_eq:
  "processEventWithRetry_loop processFn event maxRetries attempt lastError w steps =
   retry_loop (processFn event) maxRetries 1000 attempt lastError w steps"
proof (induction "processFn event" maxRetries "1000 :: int" attempt lastError w steps
    rule: retry_loop.induct)
  case (1 maxAttempts attempt lastError w steps)
  show ?case
    apply (subst processEventWithRetry_loop.simps)
    apply (subst retry_loop.simps)
    using 1 by (auto split: prod.splits sum.splits simp: mult.commute)
qed

text \<open>
  Claim C8. With its default \<^verbatim>\<open>maxRetries = 3\<close> the per-event retry of the batch executor
  behaves as the shared helper \<^verbatim>\<open>retry\<close> with \<^verbatim>\<open>maxAttempts = 3\<close> and a base delay of 1000 ms:
  from every world the two make the same calls and the same sleeps, and end with the same
  value or the same error.
\<close>

theorem processEventWithRetry_is_retry:
  "processEventWithRetry processFn event 3 = retry (processFn event) 3 1000"
  by (rule ext) (simp add: processEventWithRetry_def retry_def processEventWithRetry_loop_eq)

section \<open>The strategy registry: properties\<close>

lemma EventType_values_complete: "eventType \<in> set EventType_values"
  by (cases eventType) (simp_all add: EventType_values_def)

lemma set_getSupportedEventTypesForProcessor:
  "set (getSupportedEventTypesForProcessor processor) = {eventType. canHandle processor eventType}"
  by (auto simp: getSupportedEventTypesForProcessor_def EventType_values_complete)

lemma keys_update:
  "set (map fst (DAList.impl_of (DAList.update k v m))) = insert k (set (map fst (DAList.impl_of m)))"
  using dom_update [of k v "DAList.impl_of m"] by (simp add: update.rep_eq)

lemma lookup_None_iff: "DAList.lookup m k = None \<longleftrightarrow> k \<notin> set (map fst (DAList.impl_of m))"
  by (simp add: lookup.rep_eq map_of_eq_None_iff)

lemma lookup_register:
  "DAList.lookup (fold (\<lambda>eventType reg. DAList.update eventType processor reg) ts reg) t =
     (if t \<in> set ts then Some processor else DAList.lookup reg t)"
  by (induction ts arbitrary: reg) (auto simp: DAList.lookup_update)

lemma keys_register:
  "set (map fst (DAList.impl_of (fold (\<lambda>eventType reg. DAList.update eventType processor reg) ts reg))) =
     set ts \<union> set (map fst (DAList.impl_of reg))"
proof (induction ts arbitrary: reg)
  case Nil
  show ?case by simp
next
  case (Cons t ts)
  show ?case
    unfolding fold_simps Cons.IH keys_update by auto
qed

lemma lookup_initializeRegistry:
  "DAList.lookup (initializeRegistry processors reg) t =
     (if \<exists>p \<in> set processors. canHandle p t
      then Some (last (filter (\<lambda>p. canHandle p t) processors))
      else DAList.lookup reg t)"
proof (induction processors arbitrary: reg)
  case Nil
  show ?case by (simp add: initializeRegistry_def)
next
  case (Cons p ps)
  have step: "initializeRegistry (p # ps) reg =
      initializeRegistry ps (fold (\<lambda>eventType reg'. DAList.update eventType p reg')
        (getSupportedEventTypesForProcessor p) reg)"
    by (simp add: initializeRegistry_def)
  show ?case
    unfolding step Cons.IH lookup_register set_getSupportedEventTypesForProcessor
    by (auto simp: filter_empty_conv)
qed

lemma keys_initializeRegistry:
  "set (map fst (DAList.impl_of (initializeRegistry processors reg))) =
     {t. \<exists>p \<in> set processors. canHandle p t} \<union> set (map fst (DAList.impl_of reg))"
proof (induction processors arbitrary: reg)
  case Nil
  show ?case by (simp add: initializeRegistry_def)
next
  case (Cons p ps)
  have step: "initializeRegistry (p # ps) reg =
      initializeRegistry ps (fold (\<lambda>eventType reg'. DAList.update eventType p reg')
        (getSupportedEventTypesForProcessor p) reg)"
    by (simp add: initializeRegistry_def)
  show ?case
    unfolding step Cons.IH keys_register set_getSupportedEventTypesForProcessor
    by auto
qed

lemma createProcessor_lookup: "createProcessor reg t = DAList.lookup reg t"
  by (simp add: createProcessor_def split: option.splits)

text \<open>
  Claim C5. After the registry is initialised from an ordered handler list,
  \<^verbatim>\<open>createProcessor(t)\<close> returns the last handler of the list whose \<^verbatim>\<open>canHandle(t)\<close> is true, and
  none when no handler of the list can handle \<open>t\<close>; \<^verbatim>\<open>getSupportedEventTypes()\<close> returns
  exactly the event types that at least one handler claims.
\<close>

theorem registry_last_handler_wins:
  "createProcessor (ConcreteEventProcessorFactory processors) t =
     (if \<exists>p \<in> set processors. canHandle p t
      then Some (last (filter (\<lambda>p. canHandle p t) processors))
      else None)
   \<and> set (getSupportedEventTypes (ConcreteEventProcessorFactory processors)) =
       {eventType. \<exists>p \<in> set processors. canHandle p eventType}"
  by (simp add: createProcessor_lookup ConcreteEventProcessorFactory_def
      lookup_initializeRegistry getSupportedEventTypes_def keys_initializeRegistry
      empty.rep_eq del: set_map)

theorem registry_last_handler_wins_witness:
  "createProcessor (ConcreteEventProcessorFactory [orderProcessor, mockProcessor]) ORDER_CREATED
     = Some mockProcessor
   \<and> createProcessor (ConcreteEventProcessorFactory [orderProcessor, mockProcessor]) ORDER_UPDATED
     = Some orderProcessor
   \<and> createProcessor (ConcreteEventProcessorFactory [orderProcessor, mockProcessor]) PAYMENT_FAILED
     = None
   \<and> set (getSupportedEventTypes (ConcreteEventProcessorFactory [orderProcessor, mockProcessor]))
     = {ORDER_CREATED, ORDER_UPDATED, ORDER_CANCELLED}"
proof -
  have handles: "canHandle orderProcessor t \<longleftrightarrow> t = ORDER_CREATED \<or> t = ORDER_UPDATED \<or> t = ORDER_CANCELLED"
    "canHandle mockProcessor t \<longleftrightarrow> t = ORDER_CREATED" for t
    by (simp_all add: orderProcessor_def mockProcessor_def)
  show ?thesis
    using registry_last_handler_wins [of "[orderProcessor, mockProcessor]" ORDER_CREATED]
      registry_last_handler_wins [of "[orderProcessor, mockProcessor]" ORDER_UPDATED]
      registry_last_handler_wins [of "[orderProcessor, mockProcessor]" PAYMENT_FAILED]
    by (auto simp: handles)
qed

section \<open>The dispatcher without a handler\<close>

text \<open>
  Claim C6. For an event whose type has no registered handler the registry lookup returns
  none, and \<^verbatim>\<open>processEvent\<close> fails with an error whose message names the event type; the state
  is left as it was, so no observer has been notified.
\<close>

theorem no_handler_fails_without_notification:
  "ev_type event \<notin> set (getSupportedEventTypes (processorRegistry s)) \<Longrightarrow>
   createProcessor (processorRegistry s) (ev_type event) = None
   \<and> processEvent event s =
       (Inl (Error (''No processor found for event type: '' @ EventType_string (ev_type event))), s)
   \<and> effects (env (snd (processEvent event s))) = effects (env s)"
proof -
  assume "ev_type event \<notin> set (getSupportedEventTypes (processorRegistry s))"
  then have none: "createProcessor (processorRegistry s) (ev_type event) = None"
    by (simp add: createProcessor_lookup lookup_None_iff getSupportedEventTypes_def)
  then show ?thesis
    by (simp add: processEvent_def)
qed

lemma ConcreteEventProcessorFactory_Nil: "ConcreteEventProcessorFactory [] = DAList.empty"
  by (simp add: ConcreteEventProcessorFactory_def initializeRegistry_def)

lemma supported_startup:
  "set (getSupportedEventTypes (processorRegistry (startup processors observerList w))) =
     {eventType. \<exists>p \<in> set processors. canHandle p eventType}"
  by (simp add: startup_def getSupportedEventTypes_def keys_initializeRegistry
      ConcreteEventProcessorFactory_Nil empty.rep_eq del: set_map)

theorem no_handler_fails_without_notification_witness:
  "processEvent (test_event ''evt-1'' PAYMENT_CONFIRMED ''{}'')
       (startup [orderProcessor] [auditObserver] 0) =
     (Inl (Error ''No processor found for event type: PAYMENT_CONFIRMED''),
      startup [orderProcessor] [auditObserver] 0)
   \<and> effects (env (snd (processEvent (test_event ''evt-1'' PAYMENT_CONFIRMED ''{}'')
       (startup [orderProcessor] [auditObserver] 0)))) = []"
proof -
  have "ev_type (test_event ''evt-1'' PAYMENT_CONFIRMED ''{}'') \<notin>
      set (getSupportedEventTypes (processorRegistry (startup [orderProcessor] [auditObserver] 0)))"
    unfolding supported_startup by (simp add: test_event_def orderProcessor_def)
  from no_handler_fails_without_notification [OF this]
  show ?thesis
    by (simp add: test_event_def) (simp add: startup_def)
qed

section \<open>Observer fan-out: properties\<close>

lemma notification_caught:
  "notification observer event e =
     (Inr (), e\<lparr>world := snd (update observer event (world e)),
               effects := effects e @ [Updated (getName observer) event]\<rparr>)"
  by (simp add: notification_def call_update_def split: prod.splits sum.splits)

lemma start_each_notification:
  "start_each (\<lambda>observer. notification observer event) obs e =
     (map (\<lambda>observer. Inr ()) obs,
      e\<lparr>world := fold (\<lambda>observer w. snd (update observer event w)) obs (world e),
        effects := effects e @ map (\<lambda>observer. Updated (getName observer) event) obs\<rparr>)"
proof (induction obs arbitrary: e)
  case Nil
  show ?case by simp
next
  case (Cons observer obs)
  show ?case
    unfolding start_each.simps notification_caught [of observer] Cons.IH by simp
qed

text \<open>
  Claim C7. For every event and every observer list \<^verbatim>\<open>notify(event)\<close> is fulfilled, never
  rejected: the \<^verbatim>\<open>update\<close> of every observer interested in the type of the event is called,
  once and in list order, whether or not the \<^verbatim>\<open>update\<close> of another observer fails. The
  failure of an \<^verbatim>\<open>update\<close> is caught where it occurs: the closure that calls \<^verbatim>\<open>update\<close> is
  fulfilled whatever \<^verbatim>\<open>update\<close> returns, so every promise that \<^verbatim>\<open>notify\<close> hands to
  \<^verbatim>\<open>Promise.allSettled\<close> is a fulfilled one.
\<close>

theorem notify_isolates_observer_failures:
  "fst (notify observerList event e) = Inr ()
   \<and> effects (snd (notify observerList event e)) =
       effects e @ map (\<lambda>observer. Updated (getName observer) event)
         (filter (\<lambda>observer. isInterestedIn observer (ev_type event)) observerList)
   \<and> world (snd (notify observerList event e)) =
       fold (\<lambda>observer w. snd (update observer event w))
         (filter (\<lambda>observer. isInterestedIn observer (ev_type event)) observerList) (world e)
   \<and> clock (snd (notify observerList event e)) = clock e
   \<and> notification observer' event e' = (Inr (), snd (call_update observer' event e'))
   \<and> notificationPromises
         (filter (\<lambda>observer. isInterestedIn observer (ev_type event)) observerList) event e =
       (map (\<lambda>observer. Inr ())
          (filter (\<lambda>observer. isInterestedIn observer (ev_type event)) observerList),
        snd (notify observerList event e))"
  by (simp add: notify_def Let_def notificationPromises_def start_each_notification allSettled_def
      notification_caught call_update_def split: prod.splits)

theorem notify_isolates_observer_failures_witness:
  "notify [mockNotificationObserver, auditObserver]
      (test_event ''test-notification-1'' NOTIFICATION_REQUESTED ''{}'')
      \<lparr>world = 0, clock = 0, effects = []\<rparr> =
     (Inr (),
      \<lparr>world = 2, clock = 0,
       effects = [Updated ''MockNotificationObserver''
                    (test_event ''test-notification-1'' NOTIFICATION_REQUESTED ''{}''),
                  Updated ''AuditObserver''
                    (test_event ''test-notification-1'' NOTIFICATION_REQUESTED ''{}'')]\<rparr>)
   \<and> fst (update mockNotificationObserver
        (test_event ''test-notification-1'' NOTIFICATION_REQUESTED ''{}'') 0) =
       Inl (Error ''Mock observer error'')
   \<and> notification mockNotificationObserver
        (test_event ''test-notification-1'' NOTIFICATION_REQUESTED ''{}'')
        \<lparr>world = 0, clock = 0, effects = []\<rparr> =
       (Inr (),
        \<lparr>world = 1, clock = 0,
         effects = [Updated ''MockNotificationObserver''
                      (test_event ''test-notification-1'' NOTIFICATION_REQUESTED ''{}'')]\<rparr>)
   \<and> fst (notificationPromises [mockNotificationObserver, auditObserver]
        (test_event ''test-notification-1'' NOTIFICATION_REQUESTED ''{}'')
        \<lparr>world = 0, clock = 0, effects = []\<rparr>) = [Inr (), Inr ()]"
proof -
  let ?event = "test_event ''test-notification-1'' NOTIFICATION_REQUESTED ''{}''"
  let ?observers = "[mockNotificationObserver, auditObserver]"
  let ?e = "\<lparr>world = 0 :: nat, clock = 0, effects = []\<rparr>"
  note isolated = notify_isolates_observer_failures
    [of ?observers ?event ?e mockNotificationObserver ?e]
  have interested:
    "filter (\<lambda>observer. isInterestedIn observer (ev_type ?event)) ?observers = ?observers"
    by (simp add: isInterestedIn_def mockNotificationObserver_def auditObserver_def
        test_event_def EventType_values_def)
  have "notify ?observers ?event ?e =
     (fst (notify ?observers ?event ?e),
      \<lparr>world = world (snd (notify ?observers ?event ?e)),
       clock = clock (snd (notify ?observers ?event ?e)),
       effects = effects (snd (notify ?observers ?event ?e))\<rparr>)"
    by (simp add: prod_eq_iff)
  then have fanout: "notify ?observers ?event ?e =
     (Inr (),
      \<lparr>world = 2, clock = 0,
       effects = [Updated ''MockNotificationObserver'' ?event,
                  Updated ''AuditObserver'' ?event]\<rparr>)"
    unfolding isolated [THEN conjunct1]
      isolated [THEN conjunct2, THEN conjunct1]
      isolated [THEN conjunct2, THEN conjunct2, THEN conjunct1]
      isolated [THEN conjunct2, THEN conjunct2, THEN conjunct2, THEN conjunct1]
      interested
    by (simp add: mockNotificationObserver_def auditObserver_def)
  have thrown: "fst (update mockNotificationObserver ?event 0) =
      Inl (Error ''Mock observer error'')"
    by (simp add: mockNotificationObserver_def)
  have caught: "notification mockNotificationObserver ?event ?e =
      (Inr (),
       \<lparr>world = 1, clock = 0, effects = [Updated ''MockNotificationObserver'' ?event]\<rparr>)"
    unfolding isolated [THEN conjunct2, THEN conjunct2, THEN conjunct2, THEN conjunct2,
        THEN conjunct1]
    by (simp add: call_update_def mockNotificationObserver_def)
  have promises: "fst (notificationPromises ?observers ?event ?e) = [Inr (), Inr ()]"
    using isolated [THEN conjunct2, THEN conjunct2, THEN conjunct2, THEN conjunct2,
        THEN conjunct2]
    unfolding interested by simp
  show ?thesis
    using fanout thrown caught promises by simp
qed

section \<open>Batch statistics: properties\<close>

lemma AList_update_fresh: "k \<notin> fst ` set al \<Longrightarrow> AList.update k v al = al @ [(k, v)]"
  by (induction al) auto

lemma statistics_fold:
  "distinct (map fst xs) \<Longrightarrow> fst ` set (DAList.impl_of byType) \<inter> fst ` set xs = {} \<Longrightarrow>
   fold (\<lambda>(eventType, batch) (byType, pending).
           (DAList.update eventType (length (events batch)) byType,
            pending + length (events batch))) xs (byType, n) = (byType', n') \<Longrightarrow>
   DAList.impl_of byType' =
     DAList.impl_of byType @ map (\<lambda>(eventType, batch). (eventType, length (events batch))) xs
   \<and> n' = n + sum_list (map (\<lambda>(eventType, batch). length (events batch)) xs)"
proof (induction xs arbitrary: byType n)
  case Nil
  then show ?case by simp
next
  case (Cons x xs)
  obtain k b where x: "x = (k, b)" by (cases x)
  let ?byType = "DAList.update k (length (events b)) byType"
  have fresh: "k \<notin> fst ` set (DAList.impl_of byType)"
    using Cons.prems(2) x by auto
  have impl: "DAList.impl_of ?byType = DAList.impl_of byType @ [(k, length (events b))]"
    by (simp add: update.rep_eq AList_update_fresh [OF fresh])
  have disj: "fst ` set (DAList.impl_of ?byType) \<inter> fst ` set xs = {}"
    using Cons.prems(1,2) x by (auto simp: impl)
  have run: "fold (\<lambda>(eventType, batch) (byType, pending).
           (DAList.update eventType (length (events batch)) byType,
            pending + length (events batch))) xs (?byType, n + length (events b)) = (byType', n')"
    using Cons.prems(3) x by simp
  from Cons.IH [OF _ disj run] Cons.prems(1)
  show ?case by (simp add: impl x)
qed

text \<open>
  Claim C10. In every state of the batch service the result of \<^verbatim>\<open>getBatchStatistics()\<close> is
  consistent: \<^verbatim>\<open>totalPendingEvents\<close> is the sum of the counts in \<^verbatim>\<open>batchesByType\<close>, which has one
  entry per pending batch, holding the number of events of that batch; \<^verbatim>\<open>pendingBatches\<close> and
  \<^verbatim>\<open>activeBatches\<close> are the numbers of entries of the two maps.
\<close>

theorem getBatchStatistics_consistent:
  "totalPendingEvents (getBatchStatistics s) =
     sum_list (map snd (DAList.impl_of (batchesByType (getBatchStatistics s))))
   \<and> DAList.impl_of (batchesByType (getBatchStatistics s)) =
       map (\<lambda>(eventType, batch). (eventType, length (events batch)))
         (DAList.impl_of (pendingBatches s))
   \<and> stat_pendingBatches (getBatchStatistics s) = length (DAList.impl_of (pendingBatches s))
   \<and> stat_activeBatches (getBatchStatistics s) = length (DAList.impl_of (activeBatches s))"
proof -
  obtain byType n where run: "fold (\<lambda>(eventType, batch) (byType, pending).
           (DAList.update eventType (length (events batch)) byType,
            pending + length (events batch)))
        (DAList.impl_of (pendingBatches s)) (DAList.empty, 0) = (byType, n)"
    by (cases "fold (\<lambda>(eventType, batch) (byType, pending).
           (DAList.update eventType (length (events batch)) byType,
            pending + length (events batch)))
        (DAList.impl_of (pendingBatches s)) (DAList.empty, 0 :: nat)") 
  have "DAList.impl_of byType =
     DAList.impl_of DAList.empty @ map (\<lambda>(eventType, batch). (eventType, length (events batch)))
       (DAList.impl_of (pendingBatches s))
   \<and> n = 0 + sum_list (map (\<lambda>(eventType, batch). length (events batch))
       (DAList.impl_of (pendingBatches s)))"
    by (rule statistics_fold [OF _ _ run]) (simp_all add: empty.rep_eq)
  moreover have "sum_list (map snd (map (\<lambda>(eventType, batch). (eventType, length (events batch)))
       (DAList.impl_of (pendingBatches s)))) =
     sum_list (map (\<lambda>(eventType, batch). length (events batch)) (DAList.impl_of (pendingBatches s)))"
    by (simp add: comp_def case_prod_unfold)
  ultimately show ?thesis
    by (simp add: getBatchStatistics_def run empty.rep_eq)
qed

section \<open>The pending batches: properties\<close>

lemma lookup_Some_iff:
  "DAList.lookup m k = Some v \<longleftrightarrow> (k, v) \<in> set (DAList.impl_of m)"
  by (simp add: lookup.rep_eq)

lemma pending_invariant_lookup:
  "pending_invariant s \<longleftrightarrow>
     (\<forall>t batch. DAList.lookup (pendingBatches s) t = Some batch \<longrightarrow> batch_invariant t batch)"
  by (auto simp: pending_invariant_def list_all_iff lookup_Some_iff)

lemma createdAt_kept_lookup:
  "createdAt_kept s s' \<longleftrightarrow>
     (\<forall>t batch'. DAList.lookup (pendingBatches s') t = Some batch' \<longrightarrow>
        createdAt batch' = (case DAList.lookup (pendingBatches s) t of
                              None \<Rightarrow> clock (env s)
                            | Some batch \<Rightarrow> createdAt batch))"
  by (auto simp: createdAt_kept_def list_all_iff lookup_Some_iff)

lemma pendingBatches_processBatch:
  "pendingBatches (processBatch t s) =
     (case DAList.lookup (pendingBatches s) t of
        None \<Rightarrow> pendingBatches s
      | Some batch \<Rightarrow>
          if events batch = [] then pendingBatches s else DAList.delete t (pendingBatches s))"
  by (simp add: processBatch_def Let_def split: option.splits prod.splits sum.splits)


lemma lookup_processBatch:
  "DAList.lookup (pendingBatches (processBatch t s)) t' = Some batch \<Longrightarrow>
   DAList.lookup (pendingBatches s) t' = Some batch"
  by (auto simp: pendingBatches_processBatch split: option.splits if_splits)

lemma lookup_fold_processBatch:
  "DAList.lookup (pendingBatches (fold processBatch ts s)) t' = Some batch \<Longrightarrow>
   DAList.lookup (pendingBatches s) t' = Some batch"
  by (induction ts arbitrary: s) (auto dest: lookup_processBatch)

lemma pending_invariant_subset:
  "pending_invariant s \<Longrightarrow>
   (\<And>t batch. DAList.lookup (pendingBatches s') t = Some batch \<Longrightarrow>
      DAList.lookup (pendingBatches s) t = Some batch) \<Longrightarrow>
   pending_invariant s'"
  by (auto simp: pending_invariant_lookup)

lemma createdAt_kept_subset:
  "(\<And>t batch. DAList.lookup (pendingBatches s') t = Some batch \<Longrightarrow>
      DAList.lookup (pendingBatches s) t = Some batch) \<Longrightarrow>
   createdAt_kept s s'"
  by (auto simp: createdAt_kept_lookup)

lemma pendingBatches_addEventToBatch:
  "createProcessor (processorRegistry s) (ev_type event) = Some processor \<Longrightarrow>
   supportsBatchProcessing processor \<Longrightarrow>
   pendingBatches (addEventToBatch event s) =
     (let batch = (case DAList.lookup (pendingBatches s) (ev_type event) of
                     None \<Rightarrow> \<lparr>batch_eventType = ev_type event, events = [],
                              createdAt = clock (env s), maxSize = getBatchSize processor\<rparr>
                   | Some b \<Rightarrow> b);
          batch' = batch\<lparr>events := events batch @ [event]\<rparr>
      in if maxSize batch' \<le> int (length (events batch'))
         then DAList.delete (ev_type event) (pendingBatches s)
         else DAList.update (ev_type event) batch' (pendingBatches s))"
proof -
  have del: "DAList.delete k (DAList.update k v m) = DAList.delete k m" for k v
    and m :: "(EventType, PendingBatch) alist"
    by (simp add: alist_eq_iff delete.rep_eq update.rep_eq delete_update_same)
  assume "createProcessor (processorRegistry s) (ev_type event) = Some processor"
    "supportsBatchProcessing processor"
  then show ?thesis
    by (simp add: addEventToBatch_def Let_def pendingBatches_processBatch del)
qed

lemma pending_addEventToBatch_unbatched:
  "createProcessor (processorRegistry s) (ev_type event) = None \<or>
   (\<exists>processor. createProcessor (processorRegistry s) (ev_type event) = Some processor
      \<and> \<not> supportsBatchProcessing processor) \<Longrightarrow>
   addEventToBatch event s = s"
  by (auto simp: addEventToBatch_def)

lemma addEventToBatch_keeps:
  assumes "pending_invariant s"
  shows "pending_invariant (addEventToBatch event s) \<and> createdAt_kept s (addEventToBatch event s)"
proof (cases "createProcessor (processorRegistry s) (ev_type event)")
  case None
  then have "addEventToBatch event s = s"
    by (simp add: pending_addEventToBatch_unbatched)
  with assms show ?thesis
    by (auto simp: createdAt_kept_lookup)
next
  case (Some processor)
  show ?thesis
  proof (cases "supportsBatchProcessing processor")
    case False
    with Some have "addEventToBatch event s = s"
      by (simp add: pending_addEventToBatch_unbatched)
    with assms show ?thesis
      by (auto simp: createdAt_kept_lookup)
  next
    case True
    note p = pendingBatches_addEventToBatch [OF Some True]
    show ?thesis
    proof (cases "DAList.lookup (pendingBatches s) (ev_type event)")
      case None
      with assms show ?thesis
        unfolding pending_invariant_lookup createdAt_kept_lookup p
        by (auto simp: Let_def DAList.lookup_update batch_invariant_def split: if_splits)
    next
      case (Some b)
      with assms have "batch_invariant (ev_type event) b"
        by (simp add: pending_invariant_lookup)
      with Some assms show ?thesis
        unfolding pending_invariant_lookup createdAt_kept_lookup p
        by (auto simp: Let_def DAList.lookup_update batch_invariant_def split: if_splits)
    qed
  qed
qed

text \<open>
  Claim C9. After each public operation of the batch service (\<^verbatim>\<open>addEventToBatch\<close>,
  \<^verbatim>\<open>processTimedOutBatches\<close>, \<^verbatim>\<open>forceBatchProcessing\<close>) every entry of the pending map under a key
  \<open>t\<close> is a batch with \<^verbatim>\<open>eventType = t\<close> whose events all have type \<open>t\<close>, with \<^verbatim>\<open>createdAt\<close> as it
  was when the batch was created, holding between 1 and \<open>maxSize - 1\<close> events. The invariant
  holds of the empty map the service starts with and every operation keeps it; no assumption
  on \<^verbatim>\<open>getBatchSize()\<close> is needed, since a batch that is not below its \<open>maxSize\<close> after an
  append is flushed at once.
\<close>

theorem pending_batches_invariant:
  "(pendingBatches s = DAList.empty \<longrightarrow> pending_invariant s)
   \<and> (pending_invariant s \<longrightarrow>
        pending_invariant (addEventToBatch event s)
        \<and> createdAt_kept s (addEventToBatch event s)
        \<and> pending_invariant (processTimedOutBatches s)
        \<and> createdAt_kept s (processTimedOutBatches s)
        \<and> pending_invariant (forceBatchProcessing eventType s)
        \<and> createdAt_kept s (forceBatchProcessing eventType s))"
proof (intro conjI impI)
  assume "pendingBatches s = DAList.empty"
  then show "pending_invariant s"
    by (simp add: pending_invariant_def empty.rep_eq)
next
  assume inv: "pending_invariant s"
  show "pending_invariant (addEventToBatch event s)"
    using addEventToBatch_keeps [OF inv] by simp
  show "createdAt_kept s (addEventToBatch event s)"
    using addEventToBatch_keeps [OF inv] by simp
  have sweep: "DAList.lookup (pendingBatches (processTimedOutBatches s)) t = Some batch \<Longrightarrow>
      DAList.lookup (pendingBatches s) t = Some batch" for t batch
    by (auto simp: processTimedOutBatches_def Let_def dest: lookup_fold_processBatch
        split: if_splits)
  show "pending_invariant (processTimedOutBatches s)"
    by (rule pending_invariant_subset [OF inv sweep])
  show "createdAt_kept s (processTimedOutBatches s)"
    by (rule createdAt_kept_subset [OF sweep])
  have force: "DAList.lookup (pendingBatches (forceBatchProcessing eventType s)) t = Some batch \<Longrightarrow>
      DAList.lookup (pendingBatches s) t = Some batch" for t batch
    by (auto simp: forceBatchProcessing_def dest: lookup_fold_processBatch lookup_processBatch
        split: option.splits)
  show "pending_invariant (forceBatchProcessing eventType s)"
    by (rule pending_invariant_subset [OF inv force])
  show "createdAt_kept s (forceBatchProcessing eventType s)"
    by (rule createdAt_kept_subset [OF force])
qed

section \<open>Flush by size: properties\<close>

lemma processBatch_flush:
  assumes "DAList.lookup (pendingBatches s) t = Some batch" "events batch \<noteq> []"
  shows "\<exists>job q e'.
     processBatch t s =
       s\<lparr>pendingBatches := DAList.delete t (pendingBatches s),
         uuid_counter := Suc (uuid_counter s),
         activeBatches := DAList.update (uuid_counter s) job (activeBatches s),
         timers := q, env := e'\<rparr>
     \<and> job_id job = uuid_counter s \<and> job_type job = t \<and> job_events job = events batch
     \<and> batchSize job = length (events batch) \<and> job_createdAt job = createdAt batch
     \<and> startedAt job = Some (clock (env s))
     \<and> (job_status job = COMPLETED \<or> job_status job = FAILED)"
proof (cases "createProcessor (processorRegistry s) t")
  case None
  let ?job = "\<lparr>job_id = uuid_counter s, job_type = t, job_events = events batch,
     batchSize = length (events batch), job_status = FAILED, job_createdAt = createdAt batch,
     startedAt = Some (clock (env s)),
     completedAt = Some (clock (env s)),
     job_error = Some (''No processor found for event type: '' @ EventType_string t)\<rparr>"
  have "processBatch t s =
      s\<lparr>pendingBatches := DAList.delete t (pendingBatches s),
        uuid_counter := Suc (uuid_counter s),
        activeBatches := DAList.update (uuid_counter s) ?job (activeBatches s),
        timers := timers s, env := env s\<rparr>"
    using assms None by (simp add: processBatch_def Let_def)
  then show ?thesis
    by (intro exI [of _ ?job] exI [of _ "timers s"] exI [of _ "env s"]) simp
next
  case (Some processor)
  obtain r q e' where run: "await_all (processTime s)
      (map (\<lambda>event. (clock (env s), True,
              Attempt \<lparr>fr_processFn = process processor, fr_event = event,
                       fr_maxRetries = 3, fr_attempt = 1\<rparr>)) (events batch)
       @ map (\<lambda>(due, task). (due, False, task)) (timers s)) (env s) = (r, q, e')"
    by (metis prod_cases3)
  show ?thesis
  proof (cases r)
    case (Inr u)
    let ?job = "\<lparr>job_id = uuid_counter s, job_type = t, job_events = events batch,
       batchSize = length (events batch), job_status = COMPLETED, job_createdAt = createdAt batch,
       startedAt = Some (clock (env s)), completedAt = Some (clock e'), job_error = None\<rparr>"
    have "processBatch t s =
        s\<lparr>pendingBatches := DAList.delete t (pendingBatches s),
          uuid_counter := Suc (uuid_counter s),
          activeBatches := DAList.update (uuid_counter s) ?job (activeBatches s),
          timers := map (\<lambda>(due, aw, task). (due, task)) q, env := e'\<rparr>"
      using assms Some run Inr by (simp add: processBatch_def Let_def)
    then show ?thesis
      by (intro exI [of _ ?job] exI [of _ "map (\<lambda>(due, aw, task). (due, task)) q"]
            exI [of _ e']) simp
  next
    case (Inl err)
    let ?job = "\<lparr>job_id = uuid_counter s, job_type = t, job_events = events batch,
       batchSize = length (events batch), job_status = FAILED, job_createdAt = createdAt batch,
       startedAt = Some (clock (env s)), completedAt = Some (clock e'),
       job_error = Some (message err)\<rparr>"
    have "processBatch t s =
        s\<lparr>pendingBatches := DAList.delete t (pendingBatches s),
          uuid_counter := Suc (uuid_counter s),
          activeBatches := DAList.update (uuid_counter s) ?job (activeBatches s),
          timers := map (\<lambda>(due, aw, task). (due, task)) q, env := e'\<rparr>"
      using assms Some run Inl by (simp add: processBatch_def Let_def)
    then show ?thesis
      by (intro exI [of _ ?job] exI [of _ "map (\<lambda>(due, aw, task). (due, task)) q"]
            exI [of _ e']) simp
  qed
qed

lemma update_same: "DAList.lookup m k = Some v \<Longrightarrow> DAList.update k v m = m"
  by (simp add: alist_eq_iff update.rep_eq lookup.rep_eq update_triv)

lemma delete_update_absent:
  "DAList.lookup m k = None \<Longrightarrow> DAList.delete k (DAList.update k v m) = m"
  by (simp add: alist_eq_iff update.rep_eq delete.rep_eq lookup.rep_eq delete_update_same
      map_of_eq_None_iff)

lemma append_without_flush:
  "createProcessor (processorRegistry s) t = Some processor \<Longrightarrow>
   supportsBatchProcessing processor \<Longrightarrow>
   DAList.lookup (pendingBatches s) t = Some batch \<Longrightarrow>
   \<forall>event \<in> set ys. ev_type event = t \<Longrightarrow>
   int (length (events batch) + length ys) < maxSize batch \<Longrightarrow>
   fold addEventToBatch ys s =
     s\<lparr>pendingBatches :=
         DAList.update t (batch\<lparr>events := events batch @ ys\<rparr>) (pendingBatches s)\<rparr>"
proof (induction ys arbitrary: s batch)
  case Nil
  then show ?case by (simp add: update_same)
next
  case (Cons y ys)
  let ?batch = "batch\<lparr>events := events batch @ [y]\<rparr>"
  let ?s = "s\<lparr>pendingBatches := DAList.update t ?batch (pendingBatches s)\<rparr>"
  have y: "ev_type y = t" using Cons.prems(4) by simp
  have step: "addEventToBatch y s = ?s"
    using Cons.prems(1,2,3,5) y by (simp add: addEventToBatch_def Let_def)
  have "fold addEventToBatch ys ?s =
      ?s\<lparr>pendingBatches :=
           DAList.update t (?batch\<lparr>events := events ?batch @ ys\<rparr>) (pendingBatches ?s)\<rparr>"
    using Cons.prems by (intro Cons.IH [where s = ?s and batch = ?batch]) auto
  then show ?case
    by (simp add: step)
qed

lemma appends_before_flush:
  assumes "createProcessor (processorRegistry s) t = Some processor"
    "supportsBatchProcessing processor"
    "DAList.lookup (pendingBatches s) t = None"
    "\<forall>event \<in> set xs. ev_type event = t"
    "xs \<noteq> []" "int (length xs) < getBatchSize processor"
  shows "fold addEventToBatch xs s =
     s\<lparr>pendingBatches :=
         DAList.update t \<lparr>batch_eventType = t, events = xs, createdAt = clock (env s),
                          maxSize = getBatchSize processor\<rparr> (pendingBatches s)\<rparr>"
proof -
  obtain x ys where xs: "xs = x # ys" using assms(5) by (cases xs) auto
  let ?batch = "\<lparr>batch_eventType = t, events = [x], createdAt = clock (env s),
                 maxSize = getBatchSize processor\<rparr>"
  let ?s = "s\<lparr>pendingBatches := DAList.update t ?batch (pendingBatches s)\<rparr>"
  have x: "ev_type x = t" using assms(4) xs by simp
  have first: "addEventToBatch x s = ?s"
    using assms(1,2,3,6) x xs by (simp add: addEventToBatch_def Let_def)
  have "fold addEventToBatch ys ?s =
      ?s\<lparr>pendingBatches :=
           DAList.update t (?batch\<lparr>events := events ?batch @ ys\<rparr>) (pendingBatches ?s)\<rparr>"
    using assms xs by (intro append_without_flush [where s = ?s and batch = ?batch and processor = processor]) auto
  then show ?thesis
    by (simp add: xs first)
qed

lemma filling_append_flushes:
  assumes "createProcessor (processorRegistry s) t = Some processor"
    "supportsBatchProcessing processor"
    "DAList.lookup (pendingBatches s) t = None"
    "\<forall>event \<in> set es. ev_type event = t"
    "es \<noteq> []" "getBatchSize processor = int (length es)"
  shows "fold addEventToBatch es s =
     processBatch t (s\<lparr>pendingBatches :=
         DAList.update t \<lparr>batch_eventType = t, events = es, createdAt = clock (env s),
                          maxSize = getBatchSize processor\<rparr> (pendingBatches s)\<rparr>)"
proof -
  obtain xs x where es: "es = xs @ [x]"
    using assms(5) by (cases es rule: rev_cases) auto
  have x: "ev_type x = t" using assms(4) es by simp
  show ?thesis
  proof (cases "xs = []")
    case True
    then show ?thesis
      using assms(1,2,3,6) x es by (simp add: addEventToBatch_def Let_def)
  next
    case False
    let ?batch = "\<lparr>batch_eventType = t, events = xs, createdAt = clock (env s),
                   maxSize = getBatchSize processor\<rparr>"
    have before: "fold addEventToBatch xs s =
        s\<lparr>pendingBatches := DAList.update t ?batch (pendingBatches s)\<rparr>"
      using assms es False by (intro appends_before_flush) auto
    show ?thesis
      using assms(1,2,6) x es by (simp add: before addEventToBatch_def Let_def)
  qed
qed

text \<open>
  Claim C4. For an event type whose handler supports batch processing and has batch size
  \<open>maxSize \<ge> 1\<close>: appending \<open>maxSize\<close> events of that type, starting with no pending batch for
  the type, flushes exactly once, with the last append. The flush makes exactly one job, with
  \<^verbatim>\<open>batchSize = maxSize\<close> and these events, and no event of the type is left pending; before the
  last append no job is made and the events appended so far are pending.
\<close>

theorem full_batch_flushes_once:
  assumes "createProcessor (processorRegistry s) t = Some processor"
    and "supportsBatchProcessing processor"
    and "getBatchSize processor = int (length es)"
    and "es \<noteq> []"
    and "\<forall>event \<in> set es. ev_type event = t"
    and "DAList.lookup (pendingBatches s) t = None"
  shows "DAList.lookup (pendingBatches (fold addEventToBatch es s)) t = None
    \<and> pendingBatches (fold addEventToBatch es s) = pendingBatches s
    \<and> uuid_counter (fold addEventToBatch es s) = Suc (uuid_counter s)
    \<and> (\<exists>job. activeBatches (fold addEventToBatch es s) =
                DAList.update (uuid_counter s) job (activeBatches s)
              \<and> job_type job = t \<and> job_events job = es \<and> batchSize job = length es
              \<and> (job_status job = COMPLETED \<or> job_status job = FAILED))
    \<and> (\<forall>k < length es.
          uuid_counter (fold addEventToBatch (take k es) s) = uuid_counter s
          \<and> activeBatches (fold addEventToBatch (take k es) s) = activeBatches s
          \<and> map_option events (DAList.lookup (pendingBatches (fold addEventToBatch (take k es) s)) t) =
              (if k = 0 then None else Some (take k es)))"
proof -
  let ?batch = "\<lparr>batch_eventType = t, events = es, createdAt = clock (env s),
                 maxSize = getBatchSize processor\<rparr>"
  let ?s = "s\<lparr>pendingBatches := DAList.update t ?batch (pendingBatches s)\<rparr>"
  have all: "fold addEventToBatch es s = processBatch t ?s"
    using assms by (intro filling_append_flushes) auto
  have "DAList.lookup (pendingBatches ?s) t = Some ?batch" "events ?batch \<noteq> []"
    using assms(4) by simp_all
  from processBatch_flush [OF this] obtain job q e' where flush:
    "processBatch t ?s =
       ?s\<lparr>pendingBatches := DAList.delete t (pendingBatches ?s),
          uuid_counter := Suc (uuid_counter ?s),
          activeBatches := DAList.update (uuid_counter ?s) job (activeBatches ?s),
          timers := q, env := e'\<rparr>"
    "job_type job = t" "job_events job = events ?batch" "batchSize job = length (events ?batch)"
    "job_status job = COMPLETED \<or> job_status job = FAILED"
    by blast
  have early: "uuid_counter (fold addEventToBatch (take k es) s) = uuid_counter s
      \<and> activeBatches (fold addEventToBatch (take k es) s) = activeBatches s
      \<and> map_option events (DAList.lookup (pendingBatches (fold addEventToBatch (take k es) s)) t) =
          (if k = 0 then None else Some (take k es))" if k: "k < length es" for k
  proof (cases "k = 0")
    case True
    then show ?thesis using assms(6) by simp
  next
    case False
    have "fold addEventToBatch (take k es) s =
        s\<lparr>pendingBatches :=
            DAList.update t \<lparr>batch_eventType = t, events = take k es, createdAt = clock (env s),
                             maxSize = getBatchSize processor\<rparr> (pendingBatches s)\<rparr>"
      using assms k False by (intro appends_before_flush) (auto dest: in_set_takeD)
    then show ?thesis using False by simp
  qed
  show ?thesis
    using all flush early assms(6) by (auto simp: delete_update_absent)
qed

section \<open>Worked examples\<close>

lemma createProcessor_startup:
  "createProcessor (processorRegistry (startup processors observerList w)) t =
     (if \<exists>p \<in> set processors. canHandle p t
      then Some (last (filter (\<lambda>p. canHandle p t) processors))
      else None)"
  by (simp add: startup_def createProcessor_lookup lookup_initializeRegistry
      ConcreteEventProcessorFactory_Nil)

theorem full_batch_flushes_once_witness:
  "DAList.lookup (pendingBatches (fold addEventToBatch
       [test_event ''evt-1'' STOCK_UPDATED ''ok'', test_event ''evt-2'' STOCK_UPDATED ''ok'']
       (startup [stockProcessor] [] 0))) STOCK_UPDATED = None
   \<and> uuid_counter (fold addEventToBatch
       [test_event ''evt-1'' STOCK_UPDATED ''ok'', test_event ''evt-2'' STOCK_UPDATED ''ok'']
       (startup [stockProcessor] [] 0)) = 1
   \<and> map_option batchSize (DAList.lookup (activeBatches (fold addEventToBatch
       [test_event ''evt-1'' STOCK_UPDATED ''ok'', test_event ''evt-2'' STOCK_UPDATED ''ok'']
       (startup [stockProcessor] [] 0))) 0) = Some 2
   \<and> uuid_counter (addEventToBatch (test_event ''evt-1'' STOCK_UPDATED ''ok'')
       (startup [stockProcessor] [] 0)) = 0"
proof -
  let ?es = "[test_event ''evt-1'' STOCK_UPDATED ''ok'', test_event ''evt-2'' STOCK_UPDATED ''ok'']"
  let ?s = "startup [stockProcessor] [] (0 :: nat)"
  have h1: "createProcessor (processorRegistry ?s) STOCK_UPDATED = Some stockProcessor"
    by (simp add: createProcessor_startup) (simp add: stockProcessor_def)
  have h2: "supportsBatchProcessing stockProcessor"
    and h3: "getBatchSize stockProcessor = int (length ?es)"
    by (simp_all add: stockProcessor_def)
  have h4: "?es \<noteq> []" and h5: "\<forall>event \<in> set ?es. ev_type event = STOCK_UPDATED"
    by (simp_all add: test_event_def)
  have h6: "DAList.lookup (pendingBatches ?s) STOCK_UPDATED = None"
    by (simp add: startup_def)
  have u: "uuid_counter ?s = 0"
    by (simp add: startup_def)
  from full_batch_flushes_once [OF h1 h2 h3 h4 h5 h6]
  have a: "DAList.lookup (pendingBatches (fold addEventToBatch ?es ?s)) STOCK_UPDATED = None"
    and b: "uuid_counter (fold addEventToBatch ?es ?s) = Suc (uuid_counter ?s)"
    and c: "\<exists>job. activeBatches (fold addEventToBatch ?es ?s) =
                DAList.update (uuid_counter ?s) job (activeBatches ?s)
              \<and> job_type job = STOCK_UPDATED \<and> job_events job = ?es \<and> batchSize job = length ?es
              \<and> (job_status job = COMPLETED \<or> job_status job = FAILED)"
    and d: "\<forall>k < length ?es.
          uuid_counter (fold addEventToBatch (take k ?es) ?s) = uuid_counter ?s
          \<and> activeBatches (fold addEventToBatch (take k ?es) ?s) = activeBatches ?s
          \<and> map_option events (DAList.lookup (pendingBatches (fold addEventToBatch (take k ?es) ?s))
               STOCK_UPDATED) = (if k = 0 then None else Some (take k ?es))"
    by blast+
  from c u have c': "map_option batchSize
      (DAList.lookup (activeBatches (fold addEventToBatch ?es ?s)) 0) = Some 2"
    by auto
  from d [rule_format, of 1] u
  have d': "uuid_counter (addEventToBatch (test_event ''evt-1'' STOCK_UPDATED ''ok'') ?s) = 0"
    by simp
  show ?thesis
    using a b c' d' u by simp
qed

theorem pending_batches_invariant_witness:
  "pending_invariant (startup [orderProcessor] [] 0)
   \<and> pending_invariant
       (addEventToBatch (test_event ''order-1'' ORDER_CREATED ''{}'') (startup [orderProcessor] [] 0))
   \<and> createdAt_kept (startup [orderProcessor] [] 0)
       (addEventToBatch (test_event ''order-1'' ORDER_CREATED ''{}'') (startup [orderProcessor] [] 0))
   \<and> map (\<lambda>(t, batch). (t, length (events batch), maxSize batch, createdAt batch))
       (DAList.impl_of (pendingBatches
         (addEventToBatch (test_event ''order-1'' ORDER_CREATED ''{}'')
            (startup [orderProcessor] [] 0)))) = [(ORDER_CREATED, 1, 25, 0)]"
proof -
  let ?s = "startup [orderProcessor] [] (0 :: nat)"
  let ?e = "test_event ''order-1'' ORDER_CREATED ''{}''"
  have empty: "pendingBatches ?s = DAList.empty"
    by (simp add: startup_def)
  have inv: "pending_invariant ?s"
    using pending_batches_invariant [of ?s ?e None] empty by blast
  have p: "createProcessor (processorRegistry ?s) (ev_type ?e) = Some orderProcessor"
    by (simp add: createProcessor_startup test_event_def) (simp add: orderProcessor_def)
  have facts: "supportsBatchProcessing orderProcessor" "getBatchSize orderProcessor = 25"
    "ev_type ?e = ORDER_CREATED" "clock (env ?s) = 0"
    by (simp_all add: orderProcessor_def test_event_def startup_def)
  have "pendingBatches (addEventToBatch ?e ?s) =
      DAList.update ORDER_CREATED
        \<lparr>batch_eventType = ORDER_CREATED, events = [?e], createdAt = 0, maxSize = 25\<rparr> DAList.empty"
    using pendingBatches_addEventToBatch [OF p facts(1)]
    by (simp add: facts empty Let_def)
  then have entries: "map (\<lambda>(t, batch). (t, length (events batch), maxSize batch, createdAt batch))
       (DAList.impl_of (pendingBatches (addEventToBatch ?e ?s))) = [(ORDER_CREATED, 1, 25, 0)]"
    by (simp add: update.rep_eq empty.rep_eq)
  show ?thesis
    using pending_batches_invariant [of ?s ?e None] inv entries by blast
qed

section \<open>The dispatcher: when the observers are notified\<close>









section \<open>Processing a batch: properties\<close>

lemma count_add_timer:
  "length (filter is_awaited (add_timer t q)) =
     (if is_awaited t then 1 else 0) + length (filter is_awaited q)"
  by (induction q) auto

lemma settle_cases:
  "settle aw fr out q e = (st, q', e') \<Longrightarrow>
     e' = e
     \<and> (case st of
          Some (time, aw', event, out') \<Rightarrow>
            time = clock e \<and> aw' = aw \<and> event = fr_event fr \<and> out' = out \<and> q' = q
        | None \<Rightarrow>
            length (filter is_awaited q') = (if aw then 1 else 0) + length (filter is_awaited q))"
  by (auto simp: settle_def count_add_timer is_awaited_def split: sum.splits if_splits)

lemma turn_None:
  "turn lat x q e = (None, q', e') \<Longrightarrow>
     length (filter is_awaited q') = length (filter is_awaited (x # q))"
  by (auto simp: turn_def count_add_timer is_awaited_def dest!: settle_cases
      split: prod.splits pending.splits if_splits)

lemma turn_Some:
  "turn lat x q e = (Some (time, aw, event, out), q', e') \<Longrightarrow>
     time = clock e' \<and> aw = is_awaited x \<and> q' = q"
  by (auto simp: turn_def is_awaited_def dest!: settle_cases
      split: prod.splits pending.splits if_splits)

lemma list_ex_awaited: "list_ex is_awaited q \<longleftrightarrow> length (filter is_awaited q) \<noteq> 0"
  by (induction q) auto

lemma await_all_nobody:
  "\<not> list_ex is_awaited q \<Longrightarrow> await_all lat q e = (Inr (), q, e)"
  by (cases q) (simp_all add: await_all.simps)

lemma await_all_promise_all:
  "run_timers lat q e = (log, final) \<Longrightarrow> await_all lat q e = (r, q', e') \<Longrightarrow>
     promise_all (length (filter is_awaited q)) log =
       (r, if list_ex is_awaited q then Some (clock e') else None, fst (run_timers lat q' e'))
     \<and> snd (run_timers lat q' e') = final"
proof (induction lat q e arbitrary: log rule: await_all.induct)
  case (1 lat e)
  then show ?case by (simp add: await_all.simps run_timers.simps)
next
  case (2 lat x q e)
  show ?case
  proof (cases "list_ex is_awaited (x # q)")
    case False
    then have "length (filter is_awaited (x # q)) = 0"
      using list_ex_awaited [of "x # q"] by simp
    moreover have "await_all lat (x # q) e = (Inr (), x # q, e)"
      using False by (rule await_all_nobody)
    ultimately show ?thesis
      using "2.prems" False by simp
  next
    case True
    obtain st q1 e1 where t: "turn lat x q e = (st, q1, e1)"
      by (metis prod_cases3)
    obtain log1 where run1: "run_timers lat q1 e1 = (log1, final)"
      and log: "log = (case st of None \<Rightarrow> [] | Some settled \<Rightarrow> [settled]) @ log1"
      using "2.prems"(1) t by (auto simp: run_timers.simps split: prod.splits)
    obtain n where n: "length (filter is_awaited (x # q)) = Suc n"
      using True list_ex_awaited [of "x # q"] by (cases "length (filter is_awaited (x # q))") auto
    show ?thesis
    proof (cases "rejection st")
      case (Some err)
      then obtain time event where st: "st = Some (time, True, event, Inl err)"
        by (auto simp: rejection_def split: option.splits sum.splits if_splits)
      have "await_all lat (x # q) e = (Inl err, q1, e1)"
        using True t Some by (simp add: await_all.simps)
      moreover have "time = clock e1" using t st turn_Some by blast
      ultimately show ?thesis
        using "2.prems"(2) True n log st run1 by simp
    next
      case None
      have step: "await_all lat (x # q) e = await_all lat q1 e1"
        using True t None by (simp add: await_all.simps)
      then have rest: "await_all lat q1 e1 = (r, q', e')" using "2.prems"(2) by simp
      have IH: "promise_all (length (filter is_awaited q1)) log1 =
           (r, if list_ex is_awaited q1 then Some (clock e') else None, fst (run_timers lat q' e'))
         \<and> snd (run_timers lat q' e') = final"
        using "2.IH" [of st "(q1, e1)" q1 e1 log1] True t None run1 rest by simp
      show ?thesis
      proof (cases st)
        case None
        then have "length (filter is_awaited q1) = Suc n"
          using turn_None t n by metis
        then show ?thesis
          using IH n log None True list_ex_awaited [of q1] by simp
      next
        case (Some settled)
        obtain time aw event out where settled: "settled = (time, aw, event, out)"
          by (metis prod_cases4)
        have facts: "time = clock e1" "aw = is_awaited x" "q1 = q"
          using t Some settled turn_Some by blast+
        show ?thesis
        proof (cases aw)
          case False
          then have "length (filter is_awaited q1) = Suc n"
            using facts n by simp
          then show ?thesis
            using IH n log Some settled False True list_ex_awaited [of q1] by simp
        next
          case aw: True
          then have cnt: "length (filter is_awaited q1) = n"
            using facts n by simp
          from aw \<open>rejection st = None\<close> Some settled obtain u where out: "out = Inr u"
            by (cases out) (auto simp: rejection_def)
          show ?thesis
          proof (cases n)
            case 0
            then have "\<not> list_ex is_awaited q1" using cnt list_ex_awaited [of q1] by simp
            then have "await_all lat q1 e1 = (Inr (), q1, e1)" by (rule await_all_nobody)
            with rest have "r = Inr ()" "q' = q1" "e' = e1" by simp_all
            then show ?thesis
              using n log Some settled aw out 0 True facts run1 by simp
          next
            case (Suc m)
            then show ?thesis
              using IH n log Some settled aw out cnt True list_ex_awaited [of q1] by simp
          qed
        qed
      qed
    qed
  qed
qed


lemma add_timer_orphan: "add_timer (orphan t) (map orphan q) = map orphan (add_timer t q)"
  by (induction q) (auto simp: orphan_def)

lemma settle_orphan:
  "settle aw fr out q e = (st, q', e') \<Longrightarrow>
   settle False fr out (map orphan q) e = (map_option orphan st, map orphan q', e')"
  using add_timer_orphan [of "(clock e + 2 ^ nat (fr_attempt fr - 1) * 1000, aw,
        Attempt (fr\<lparr>fr_attempt := fr_attempt fr + 1\<rparr>))" q]
  by (auto simp: settle_def orphan_def split: sum.splits if_splits)

lemma turn_orphan:
  "turn lat x q e = (st, q', e') \<Longrightarrow>
   turn lat (orphan x) (map orphan q) e = (map_option orphan st, map orphan q', e')"
proof (cases x)
  case (fields due aw task)
  assume t: "turn lat x q e = (st, q', e')"
  show ?thesis
  proof (cases task)
    case (Attempt fr)
    obtain out e1 where call:
      "call_process (fr_processFn fr) (fr_event fr) (e\<lparr>clock := max (clock e) due\<rparr>) = (out, e1)"
      by (metis surj_pair)
    show ?thesis
    proof (cases "lat (fr_event fr) (world e) = 0")
      case True
      then have "settle aw fr out q e1 = (st, q', e')"
        using t fields Attempt call by (simp add: turn_def)
      from settle_orphan [OF this] show ?thesis
        using fields Attempt call True by (simp add: turn_def orphan_def)
    next
      case False
      then show ?thesis
        using t fields Attempt call
          add_timer_orphan [of "(clock e1 + int (lat (fr_event fr) (world e)), aw, Settles fr out)" q]
        by (auto simp: turn_def orphan_def)
    qed
  next
    case (Settles fr out)
    then have "settle aw fr out q (e\<lparr>clock := max (clock e) due\<rparr>) = (st, q', e')"
      using t fields by (simp add: turn_def)
    from settle_orphan [OF this] show ?thesis
      using fields Settles by (simp add: turn_def orphan_def)
  qed
qed

lemma run_timers_orphan:
  "run_timers lat q e = (log, final) \<Longrightarrow>
   run_timers lat (map orphan q) e = (map orphan log, final)"
proof (induction lat q e arbitrary: log rule: run_timers.induct)
  case (1 lat e)
  then show ?case by (simp add: run_timers.simps)
next
  case (2 lat x q e)
  obtain st q1 e1 where t: "turn lat x q e = (st, q1, e1)"
    by (metis prod_cases3)
  obtain log1 where run1: "run_timers lat q1 e1 = (log1, final)"
    and log: "log = (case st of None \<Rightarrow> [] | Some settled \<Rightarrow> [settled]) @ log1"
    using "2.prems"(1) t by (auto simp: run_timers.simps split: prod.splits)
  have IH: "run_timers lat (map orphan q1) e1 = (map orphan log1, final)"
    using "2.IH" [of st "(q1, e1)" q1 e1 log1] t run1 by simp
  show ?case
    using turn_orphan [OF t] IH log
    by (cases st) (simp_all add: run_timers.simps)
qed

lemma mset_add_timer: "mset (add_timer t q) = add_mset t (mset q)"
  by (induction q) auto

lemma turn_events:
  "turn lat x q e = (st, q', e') \<Longrightarrow>
   mset (map (\<lambda>(time, aw, event, out). event)
           (filter is_awaited (case st of None \<Rightarrow> [] | Some settled \<Rightarrow> [settled])))
     + mset (map task_event (filter is_awaited q')) =
   mset (map task_event (filter is_awaited (x # q)))"
  by (auto simp: turn_def settle_def mset_add_timer is_awaited_def task_event_def
      split: prod.splits pending.splits sum.splits if_splits)

lemma run_timers_events:
  "run_timers lat q e = (log, final) \<Longrightarrow>
   mset (map (\<lambda>(time, aw, event, out). event) (filter is_awaited log)) =
     mset (map task_event (filter is_awaited q))"
proof (induction lat q e arbitrary: log rule: run_timers.induct)
  case (1 lat e)
  then show ?case by (simp add: run_timers.simps)
next
  case (2 lat x q e)
  obtain st q1 e1 where t: "turn lat x q e = (st, q1, e1)"
    by (metis prod_cases3)
  obtain log1 where run1: "run_timers lat q1 e1 = (log1, final)"
    and log: "log = (case st of None \<Rightarrow> [] | Some settled \<Rightarrow> [settled]) @ log1"
    using "2.prems"(1) t by (auto simp: run_timers.simps split: prod.splits)
  have IH: "mset (map (\<lambda>(time, aw, event, out). event) (filter is_awaited log1)) =
     mset (map task_event (filter is_awaited q1))"
    using "2.IH" [of st "(q1, e1)" q1 e1 log1] t run1 by simp
  show ?case
    unfolding log turn_events [OF t, symmetric] using IH by simp
qed

lemma promise_all_fulfilled:
  "promise_all n log = (Inr u, finalised, later) \<Longrightarrow> length (filter is_awaited log) = n \<Longrightarrow>
   filter is_awaited later = []"
proof (induction n log rule: promise_all.induct)
  case (1 log)
  then show ?case by simp
next
  case (2 n)
  then show ?case by simp
next
  case (3 n time aw event out log)
  then show ?case
    by (cases out) (auto simp: is_awaited_def split: if_splits)
qed


lemma processBatch_promise_all:
  assumes "DAList.lookup (pendingBatches s) t = Some batch" and "events batch \<noteq> []"
    and "createProcessor (processorRegistry s) t = Some processor"
    and "run_timers (processTime s)
           (batch_tasks (process processor) (clock (env s)) (events batch) @ left_over (timers s))
           (env s) = (log, final)"
    and "promise_all (length (events batch)) log = (verdict, finalised, later)"
  shows
    "DAList.lookup (activeBatches (processBatch t s)) (uuid_counter s) =
       Some \<lparr>job_id = uuid_counter s, job_type = t, job_events = events batch,
             batchSize = length (events batch),
             job_status = (case verdict of Inr u \<Rightarrow> COMPLETED | Inl err \<Rightarrow> FAILED),
             job_createdAt = createdAt batch, startedAt = Some (clock (env s)),
             completedAt = finalised,
             job_error = (case verdict of Inr u \<Rightarrow> None | Inl err \<Rightarrow> Some (message err))\<rparr>"
    and "finalised = Some (clock (env (processBatch t s)))"
    and "run_timers (processTime s) (left_over (timers (processBatch t s)))
           (env (processBatch t s)) = (map orphan later, final)"
    and "mset (map (\<lambda>(time, aw, event, out). event) (filter is_awaited log)) = mset (events batch)"
    and "verdict = Inr () \<longrightarrow> filter is_awaited later = []"
proof -
  let ?q = "batch_tasks (process processor) (clock (env s)) (events batch) @ left_over (timers s)"
  obtain r q' e' where await: "await_all (processTime s) ?q (env s) = (r, q', e')"
    by (metis prod_cases3)
  have mine: "filter is_awaited ?q = batch_tasks (process processor) (clock (env s)) (events batch)"
    by (simp add: batch_tasks_def left_over_def is_awaited_def filter_map o_def split_def)
  then have count: "length (filter is_awaited ?q) = length (events batch)"
    by (simp add: batch_tasks_def)
  then have some: "list_ex is_awaited ?q"
    using assms(2) list_ex_awaited [of ?q] by simp
  have pa: "promise_all (length (events batch)) log =
      (r, Some (clock e'), fst (run_timers (processTime s) q' e'))"
    and fin: "snd (run_timers (processTime s) q' e') = final"
    using await_all_promise_all [OF assms(4) await] count some by simp_all
  then have verdict: "verdict = r" "finalised = Some (clock e')"
    and later: "run_timers (processTime s) q' e' = (later, final)"
    using assms(5) by (simp_all add: prod_eq_iff)
  have pb: "processBatch t s =
      s\<lparr>pendingBatches := DAList.delete t (pendingBatches s),
        uuid_counter := Suc (uuid_counter s),
        activeBatches := DAList.update (uuid_counter s)
          \<lparr>job_id = uuid_counter s, job_type = t, job_events = events batch,
           batchSize = length (events batch),
           job_status = (case r of Inr u \<Rightarrow> COMPLETED | Inl err \<Rightarrow> FAILED),
           job_createdAt = createdAt batch, startedAt = Some (clock (env s)),
           completedAt = Some (clock e'),
           job_error = (case r of Inr u \<Rightarrow> None | Inl err \<Rightarrow> Some (message err))\<rparr>
          (activeBatches s),
        timers := map (\<lambda>(due, aw, task). (due, task)) q',
        env := e'\<rparr>"
    using assms(1,2,3) await
    by (cases r) (simp_all add: processBatch_def Let_def batch_tasks_def left_over_def)
  show "DAList.lookup (activeBatches (processBatch t s)) (uuid_counter s) =
       Some \<lparr>job_id = uuid_counter s, job_type = t, job_events = events batch,
             batchSize = length (events batch),
             job_status = (case verdict of Inr u \<Rightarrow> COMPLETED | Inl err \<Rightarrow> FAILED),
             job_createdAt = createdAt batch, startedAt = Some (clock (env s)),
             completedAt = finalised,
             job_error = (case verdict of Inr u \<Rightarrow> None | Inl err \<Rightarrow> Some (message err))\<rparr>"
    by (simp add: pb verdict)
  show "finalised = Some (clock (env (processBatch t s)))"
    by (simp add: pb verdict)
  have "left_over (timers (processBatch t s)) = map orphan q'"
    by (simp add: pb left_over_def orphan_def split_def)
  then show "run_timers (processTime s) (left_over (timers (processBatch t s)))
           (env (processBatch t s)) = (map orphan later, final)"
    using run_timers_orphan [OF later] by (simp add: pb)
  show events: "mset (map (\<lambda>(time, aw, event, out). event) (filter is_awaited log)) =
      mset (events batch)"
    unfolding run_timers_events [OF assms(4)] mine
    by (simp add: batch_tasks_def task_event_def o_def)
  have "length (filter is_awaited log) = length (events batch)"
    using arg_cong [OF events, of size] by (simp flip: mset_filter)
  then show "verdict = Inr () \<longrightarrow> filter is_awaited later = []"
    using promise_all_fulfilled [of "length (events batch)" log "()" finalised later] assms(5)
    by simp
qed

section \<open>A task on its own is \<^verbatim>\<open>processEventWithRetry\<close>\<close>

lemma invocations_simps:
  "invocations [] = 0"
  "invocations (Invoke # steps) = Suc (invocations steps)"
  "invocations (Sleep ms # steps) = invocations steps"
  by (simp_all add: invocations_def)

lemma sleeps_simps:
  "sleeps [] = []"
  "sleeps (Invoke # steps) = sleeps steps"
  "sleeps (Sleep ms # steps) = ms # sleeps steps"
  by (simp_all add: sleeps_def)

text \<open>
  The frames of the batch executor run the loop of \<^verbatim>\<open>processEventWithRetry\<close>: a task that runs
  alone ends as the call \<^verbatim>\<open>processEventWithRetry(processFn, event)\<close> does, in the same world,
  after as many calls of the handler, and after the sum of its sleeps and of the times
  that the calls took; and that call never throws \<^verbatim>\<open>undefined\<close>.
\<close>

lemma await_all_single:
  "await_all lat [(due, True, task)] e =
     (case turn lat (due, True, task) [] e of
        (st, q', e') \<Rightarrow>
          (case rejection st of
             Some err \<Rightarrow> (Inl err, q', e')
           | None \<Rightarrow> await_all lat q' e'))"
  by (simp add: await_all.simps(2) is_awaited_def)

lemma attempt_alone:
  assumes "clock e \<le> t" and "fr_processFn fr (fr_event fr) (world e) = (out, w1)"
  shows "await_all lat [(t, True, Attempt fr)] e =
     (case out of
        Inr u \<Rightarrow> (Inr (), [],
          e\<lparr>clock := t + int (lat (fr_event fr) (world e)), world := w1,
            effects := effects e @ [Processed (fr_event fr)]\<rparr>)
      | Inl err \<Rightarrow>
          if fr_attempt fr < fr_maxRetries fr
          then await_all lat
                 [(t + int (lat (fr_event fr) (world e)) + 2 ^ nat (fr_attempt fr - 1) * 1000, True,
                   Attempt (fr\<lparr>fr_attempt := fr_attempt fr + 1\<rparr>))]
                 (e\<lparr>clock := t + int (lat (fr_event fr) (world e)), world := w1,
                    effects := effects e @ [Processed (fr_event fr)]\<rparr>)
          else (Inl err, [],
                e\<lparr>clock := t + int (lat (fr_event fr) (world e)), world := w1,
                  effects := effects e @ [Processed (fr_event fr)]\<rparr>))"
proof -
  let ?l = "int (lat (fr_event fr) (world e))"
  let ?e = "e\<lparr>clock := t + ?l, world := w1, effects := effects e @ [Processed (fr_event fr)]\<rparr>"
  have now: "max (clock e) t = t" using assms(1) by simp
  have settled: "(case settle True fr out [] ?e of
        (st, q', e') \<Rightarrow>
          (case rejection st of
             Some err \<Rightarrow> (Inl err, q', e')
           | None \<Rightarrow> await_all lat q' e')) =
     (case out of
        Inr u \<Rightarrow> (Inr (), [], ?e)
      | Inl err \<Rightarrow>
          if fr_attempt fr < fr_maxRetries fr
          then await_all lat
                 [(t + ?l + 2 ^ nat (fr_attempt fr - 1) * 1000, True,
                   Attempt (fr\<lparr>fr_attempt := fr_attempt fr + 1\<rparr>))] ?e
          else (Inl err, [], ?e))"
    by (cases out) (simp_all add: settle_def rejection_def await_all.simps(1))
  show ?thesis
  proof (cases "lat (fr_event fr) (world e) = 0")
    case True
    have "await_all lat [(t, True, Attempt fr)] e =
        (case settle True fr out [] ?e of
          (st, q', e') \<Rightarrow>
            (case rejection st of
               Some err \<Rightarrow> (Inl err, q', e')
             | None \<Rightarrow> await_all lat q' e'))"
      by (subst await_all_single) (simp add: turn_def call_process_def assms(2) now True)
    then show ?thesis
      unfolding settled .
  next
    case False
    have later: "e\<lparr>world := w1, effects := effects e @ [Processed (fr_event fr)],
                  clock := t + ?l\<rparr> = ?e"
      by simp
    have "await_all lat [(t, True, Attempt fr)] e =
        await_all lat [(t + ?l, True, Settles fr out)]
          (e\<lparr>clock := t, world := w1, effects := effects e @ [Processed (fr_event fr)]\<rparr>)"
      by (subst await_all_single)
         (simp add: turn_def call_process_def assms(2) now False rejection_def)
    also have "\<dots> = (case settle True fr out []
            (e\<lparr>world := w1, effects := effects e @ [Processed (fr_event fr)],
               clock := t + ?l\<rparr>) of
          (st, q', e') \<Rightarrow>
            (case rejection st of
               Some err \<Rightarrow> (Inl err, q', e')
             | None \<Rightarrow> await_all lat q' e'))"
      by (subst await_all_single) (simp add: turn_def)
    finally show ?thesis
      unfolding later settled .
  qed
qed

lemma task_alone_loop:
  "nat (M - k) = n \<Longrightarrow> k \<le> M \<Longrightarrow> clock e \<le> t \<Longrightarrow>
   \<exists>res w' new.
     processEventWithRetry_loop processFn event M k lastError (world e) steps =
       (res, w', steps @ new)
     \<and> res \<noteq> Inl None
     \<and> await_all lat [(t, True, Attempt \<lparr>fr_processFn = processFn, fr_event = event,
                                          fr_maxRetries = M, fr_attempt = k\<rparr>)] e =
         (case res of Inr u \<Rightarrow> Inr () | Inl err \<Rightarrow> Inl (the err), [],
          e\<lparr>world := w',
            clock := t + sum_list (sleeps new)
                     + int (waited (lat event) (processFn event) (world e) (invocations new)),
            effects := effects e @ replicate (invocations new) (Processed event)\<rparr>)"
proof (induction n arbitrary: k e t lastError steps)
  case 0
  then have k: "k = M" by simp
  obtain out w1 where call: "processFn event (world e) = (out, w1)"
    by (cases "processFn event (world e)")
  let ?next = "\<lparr>fr_processFn = processFn, fr_event = event, fr_maxRetries = M, fr_attempt = M\<rparr>"
  have alone: "fr_processFn ?next (fr_event ?next) (world e) = (out, w1)" using call by simp
  note step = attempt_alone [OF "0.prems"(3) alone, of lat, simplified]
  show ?case
  proof (cases out)
    case (Inr u)
    show ?thesis
      by (intro exI [of _ "Inr u"] exI [of _ w1] exI [of _ "[Invoke]"])
         (simp add: processEventWithRetry_loop.simps [of _ _ M M] k call Inr step
            invocations_simps sleeps_simps)
  next
    case (Inl err)
    show ?thesis
      by (intro exI [of _ "Inl (Some err)"] exI [of _ w1] exI [of _ "[Invoke]"])
         (simp add: processEventWithRetry_loop.simps [of _ _ M M]
            processEventWithRetry_loop.simps [of _ _ M "M + 1"] k call Inl step
            invocations_simps sleeps_simps)
  qed
next
  case (Suc n)
  then have k: "k < M" "k \<le> M" by simp_all
  obtain out w1 where call: "processFn event (world e) = (out, w1)"
    by (cases "processFn event (world e)")
  let ?cur = "\<lparr>fr_processFn = processFn, fr_event = event, fr_maxRetries = M, fr_attempt = k\<rparr>"
  have alone: "fr_processFn ?cur (fr_event ?cur) (world e) = (out, w1)" using call by simp
  note step = attempt_alone [OF Suc.prems(3) alone, of lat, simplified]
  show ?case
  proof (cases out)
    case (Inr u)
    show ?thesis
      by (intro exI [of _ "Inr u"] exI [of _ w1] exI [of _ "[Invoke]"])
         (simp add: processEventWithRetry_loop.simps [of _ _ M k] k call Inr step
            invocations_simps sleeps_simps)
  next
    case (Inl err)
    let ?d = "2 ^ nat (k - 1) * 1000 :: int"
    let ?l = "int (lat event (world e))"
    let ?e = "e\<lparr>clock := t + ?l, world := w1, effects := effects e @ [Processed event]\<rparr>"
    let ?next = "\<lparr>fr_processFn = processFn, fr_event = event, fr_maxRetries = M, fr_attempt = k + 1\<rparr>"
    have "\<exists>res w' new.
       processEventWithRetry_loop processFn event M (k + 1) (Some err) (world ?e)
         (steps @ [Invoke, Sleep ?d]) = (res, w', (steps @ [Invoke, Sleep ?d]) @ new)
       \<and> res \<noteq> Inl None
       \<and> await_all lat [(t + ?l + ?d, True, Attempt ?next)] ?e =
           (case res of Inr u \<Rightarrow> Inr () | Inl err \<Rightarrow> Inl (the err), [],
            ?e\<lparr>world := w',
               clock := (t + ?l + ?d) + sum_list (sleeps new)
                        + int (waited (lat event) (processFn event) (world ?e) (invocations new)),
               effects := effects ?e @ replicate (invocations new) (Processed event)\<rparr>)"
      using Suc.prems by (intro Suc.IH) auto
    then obtain res w' new where rest:
      "processEventWithRetry_loop processFn event M (k + 1) (Some err) (world ?e)
         (steps @ [Invoke, Sleep ?d]) = (res, w', (steps @ [Invoke, Sleep ?d]) @ new)"
      "res \<noteq> Inl None"
      "await_all lat [(t + ?l + ?d, True, Attempt ?next)] ?e =
           (case res of Inr u \<Rightarrow> Inr () | Inl err \<Rightarrow> Inl (the err), [],
            ?e\<lparr>world := w',
               clock := (t + ?l + ?d) + sum_list (sleeps new)
                        + int (waited (lat event) (processFn event) (world ?e) (invocations new)),
               effects := effects ?e @ replicate (invocations new) (Processed event)\<rparr>)"
      by blast
    have loop: "processEventWithRetry_loop processFn event M k lastError (world e) steps =
        (res, w', steps @ [Invoke, Sleep ?d] @ new)"
      using rest(1) k
      by (simp add: processEventWithRetry_loop.simps [of _ _ M k _ _ steps] call Inl)
    have time: "(t + ?l + ?d) + sum_list (sleeps new)
          + int (waited (lat event) (processFn event) w1 (invocations new)) =
        t + sum_list (sleeps ([Invoke, Sleep ?d] @ new))
          + int (waited (lat event) (processFn event) (world e)
                   (invocations ([Invoke, Sleep ?d] @ new)))"
      by (simp add: invocations_simps sleeps_simps call)
    have calls: "effects ?e @ replicate (invocations new) (Processed event) =
        effects e @ replicate (invocations ([Invoke, Sleep ?d] @ new)) (Processed event)"
      by (simp add: invocations_simps)
    have "await_all lat [(t, True, Attempt ?cur)] e =
        await_all lat [(t + ?l + ?d, True, Attempt ?next)] ?e"
      using k by (simp add: step Inl)
    also have "\<dots> =
        (case res of Inr u \<Rightarrow> Inr () | Inl err \<Rightarrow> Inl (the err), [],
         e\<lparr>world := w',
           clock := t + sum_list (sleeps ([Invoke, Sleep ?d] @ new))
                    + int (waited (lat event) (processFn event) (world e)
                             (invocations ([Invoke, Sleep ?d] @ new))),
           effects := effects e @ replicate (invocations ([Invoke, Sleep ?d] @ new))
                                    (Processed event)\<rparr>)"
      unfolding rest(3) calls [symmetric] time [symmetric] by simp
    finally show ?thesis
      using loop rest(2)
      by (intro exI [of _ res] exI [of _ w'] exI [of _ "[Invoke, Sleep ?d] @ new"]) simp
  qed
qed

lemma task_alone:
  "\<exists>res w' steps.
     processEventWithRetry processFn event 3 (world e) = (res, w', steps)
     \<and> res \<noteq> Inl None
     \<and> await_all lat [(clock e, True, Attempt \<lparr>fr_processFn = processFn, fr_event = event,
                                                fr_maxRetries = 3, fr_attempt = 1\<rparr>)] e =
         (case res of Inr u \<Rightarrow> Inr () | Inl err \<Rightarrow> Inl (the err), [],
          e\<lparr>world := w',
            clock := clock e + sum_list (sleeps steps)
                     + int (waited (lat event) (processFn event) (world e) (invocations steps)),
            effects := effects e @ replicate (invocations steps) (Processed event)\<rparr>)"
  using task_alone_loop [of 3 1 2 e "clock e" processFn event None "[]" lat]
  by (simp add: processEventWithRetry_def)

section \<open>Processing a batch: the job and \<^verbatim>\<open>Promise.all\<close>\<close>

lemma processBatch_await:
  assumes "DAList.lookup (pendingBatches s) t = Some batch" and "events batch \<noteq> []"
    and "createProcessor (processorRegistry s) t = Some processor"
    and "await_all (processTime s)
           (batch_tasks (process processor) (clock (env s)) (events batch) @ left_over (timers s))
           (env s) = (r, q', e')"
  shows "processBatch t s =
      s\<lparr>pendingBatches := DAList.delete t (pendingBatches s),
        uuid_counter := Suc (uuid_counter s),
        activeBatches := DAList.update (uuid_counter s)
          \<lparr>job_id = uuid_counter s, job_type = t, job_events = events batch,
           batchSize = length (events batch),
           job_status = (case r of Inr u \<Rightarrow> COMPLETED | Inl err \<Rightarrow> FAILED),
           job_createdAt = createdAt batch, startedAt = Some (clock (env s)),
           completedAt = Some (clock e'),
           job_error = (case r of Inr u \<Rightarrow> None | Inl err \<Rightarrow> Some (message err))\<rparr>
          (activeBatches s),
        timers := map (\<lambda>(due, aw, task). (due, task)) q',
        env := e'\<rparr>"
  using assms
  by (cases r) (simp_all add: processBatch_def Let_def batch_tasks_def left_over_def)

lemma processBatch_single:
  assumes "DAList.lookup (pendingBatches s) t = Some batch" and "events batch = [event]"
    and "createProcessor (processorRegistry s) t = Some processor"
    and "timers s = []"
    and "run_timers (processTime s)
           (batch_tasks (process processor) (clock (env s)) (events batch) @ left_over (timers s))
           (env s) = (log, final)"
    and "promise_all (length (events batch)) log = (verdict, finalised, later)"
    and "processEventWithRetry (process processor) event 3 (world (env s)) = (res, w', steps)"
  shows "verdict = (case res of Inr u \<Rightarrow> Inr () | Inl err \<Rightarrow> Inl (the err))"
    and "res \<noteq> Inl None"
    and "later = []"
    and "final = (env s)\<lparr>world := w',
            clock := clock (env s) + sum_list (sleeps steps)
                     + int (waited (processTime s event) (process processor event) (world (env s))
                              (invocations steps)),
            effects := effects (env s) @ replicate (invocations steps) (Processed event)\<rparr>"
proof -
  let ?e = "(env s)\<lparr>world := w',
            clock := clock (env s) + sum_list (sleeps steps)
                     + int (waited (processTime s event) (process processor event) (world (env s))
                              (invocations steps)),
            effects := effects (env s) @ replicate (invocations steps) (Processed event)\<rparr>"
  let ?q = "batch_tasks (process processor) (clock (env s)) (events batch) @ left_over (timers s)"
  have q: "?q = [(clock (env s), True, Attempt \<lparr>fr_processFn = process processor,
      fr_event = event, fr_maxRetries = 3, fr_attempt = 1\<rparr>)]"
    using assms(2,4) by (simp add: batch_tasks_def left_over_def)
  from task_alone [of "process processor" event "env s" "processTime s"]
  have alone: "res \<noteq> Inl None"
    "await_all (processTime s) ?q (env s) =
       (case res of Inr u \<Rightarrow> Inr () | Inl err \<Rightarrow> Inl (the err), [], ?e)"
    unfolding q using assms(7) by simp_all
  have "promise_all (length (filter is_awaited ?q)) log =
       (case res of Inr u \<Rightarrow> Inr () | Inl err \<Rightarrow> Inl (the err),
        if list_ex is_awaited ?q then Some (clock ?e) else None,
        fst (run_timers (processTime s) [] ?e))
     \<and> snd (run_timers (processTime s) [] ?e) = final"
    using await_all_promise_all [OF assms(5) alone(2)] .
  then show "verdict = (case res of Inr u \<Rightarrow> Inr () | Inl err \<Rightarrow> Inl (the err))"
    "later = []" "final = ?e"
    using assms(6) unfolding q by (simp_all add: is_awaited_def run_timers.simps assms(2))
  show "res \<noteq> Inl None" by (rule alone)
qed

lemma stockProcessor_facts:
  "process stockProcessor event calls =
     (if ev_payload event = ''bad'' then Inl (Error (''cannot process '' @ ev_id event))
      else Inr (), Suc calls)"
  "supportsBatchProcessing stockProcessor"
  "getBatchSize stockProcessor = 2"
  "createProcessor (processorRegistry (startup [stockProcessor] observerList w')) STOCK_UPDATED =
     Some stockProcessor"
  by (simp_all add: createProcessor_startup) (simp_all add: stockProcessor_def)

lemmas run_simps = await_all.simps run_timers.simps turn_def settle_def rejection_def
  call_process_def is_awaited_def

lemma recoveringProcessor_facts:
  "process recoveringProcessor event calls =
     (if calls < 2 then Inl (Error ''Service unavailable'') else Inr (), Suc calls)"
  "supportsBatchProcessing recoveringProcessor"
  "getBatchSize recoveringProcessor = 2"
  "createProcessor (processorRegistry (startup [recoveringProcessor] observerList w')) STOCK_RESERVED =
     Some recoveringProcessor"
  by (simp_all add: createProcessor_startup) (simp_all add: recoveringProcessor_def)

lemma failed_stock_batch_state:
  "processorRegistry failed_stock_batch = processorRegistry (startup [stockProcessor] [] 0)"
  "DAList.lookup (pendingBatches failed_stock_batch) STOCK_UPDATED = None"
  "uuid_counter failed_stock_batch = 1"
  "processTime failed_stock_batch = (\<lambda>event w'. 0)"
  "timers failed_stock_batch =
     [(3000, Attempt \<lparr>fr_processFn = process stockProcessor, fr_event = test_event ''evt-2'' STOCK_UPDATED ''bad'',
                      fr_maxRetries = 3, fr_attempt = 3\<rparr>)]"
  "env failed_stock_batch =
     \<lparr>world = 5, clock = 3000,
      effects = [Processed (test_event ''evt-1'' STOCK_UPDATED ''bad''), Processed (test_event ''evt-2'' STOCK_UPDATED ''bad''), Processed (test_event ''evt-1'' STOCK_UPDATED ''bad''), Processed (test_event ''evt-2'' STOCK_UPDATED ''bad''), Processed (test_event ''evt-1'' STOCK_UPDATED ''bad'')]\<rparr>"
proof -
  let ?init = "startup [stockProcessor] [] (0 :: nat)"
  let ?one = "test_event ''evt-1'' STOCK_UPDATED ''bad''"
  let ?two = "test_event ''evt-2'' STOCK_UPDATED ''bad''"
  let ?batch = "\<lparr>batch_eventType = STOCK_UPDATED, events = [?one, ?two],
                 createdAt = clock (env ?init), maxSize = getBatchSize stockProcessor\<rparr>"
  let ?full = "?init\<lparr>pendingBatches := DAList.update STOCK_UPDATED ?batch (pendingBatches ?init)\<rparr>"
  have s0: "DAList.lookup (pendingBatches ?init) STOCK_UPDATED = None" "clock (env ?init) = 0"
    "uuid_counter ?init = 0" "env ?init = \<lparr>world = 0, clock = 0, effects = []\<rparr>"
    "timers ?init = []" "processTime ?init = (\<lambda>event w'. 0)"
    by (simp_all add: startup_def)
  have ev: "ev_type ?one = STOCK_UPDATED" "ev_type ?two = STOCK_UPDATED"
    by (simp_all add: test_event_def)
  have all: "failed_stock_batch = processBatch STOCK_UPDATED ?full"
    unfolding failed_stock_batch_def
    by (rule filling_append_flushes) (simp_all add: stockProcessor_facts s0 ev)
  have s1: "DAList.lookup (pendingBatches ?full) STOCK_UPDATED = Some ?batch" "events ?batch \<noteq> []"
    "createProcessor (processorRegistry ?full) STOCK_UPDATED = Some stockProcessor"
    by (simp_all add: stockProcessor_facts)
  have run: "await_all (processTime ?full)
      (batch_tasks (process stockProcessor) (clock (env ?full)) (events ?batch)
         @ left_over (timers ?full)) (env ?full) =
     (Inl (Error ''cannot process evt-1''),
      [(3000, True, Attempt \<lparr>fr_processFn = process stockProcessor, fr_event = ?two,
                              fr_maxRetries = 3, fr_attempt = 3\<rparr>)],
      \<lparr>world = 5, clock = 3000,
       effects = [Processed ?one, Processed ?two, Processed ?one, Processed ?two,
                  Processed ?one]\<rparr>)"
    by (simp add: s0 batch_tasks_def left_over_def)
       (simp add: run_simps stockProcessor_facts(1) test_event_def)
  note pb = processBatch_await [OF s1 run]
  show "processorRegistry failed_stock_batch = processorRegistry (startup [stockProcessor] [] 0)"
    "DAList.lookup (pendingBatches failed_stock_batch) STOCK_UPDATED = None"
    "uuid_counter failed_stock_batch = 1"
    "processTime failed_stock_batch = (\<lambda>event w'. 0)"
    "timers failed_stock_batch =
       [(3000, Attempt \<lparr>fr_processFn = process stockProcessor, fr_event = ?two,
                        fr_maxRetries = 3, fr_attempt = 3\<rparr>)]"
    "env failed_stock_batch =
       \<lparr>world = 5, clock = 3000,
        effects = [Processed ?one, Processed ?two, Processed ?one, Processed ?two,
                   Processed ?one]\<rparr>"
    unfolding all pb by (simp_all add: s0 delete_update_absent)
qed

text \<open>
  Claim C2, as the code has it. When a flushed batch is processed, every event gets its task
  and no task is cancelled, but the tasks are awaited with \<^verbatim>\<open>Promise.all\<close>, which does not
  wait for all of them. Let \<open>log\<close> be the settlements of the tasks that the runtime has in
  hand, in the order in which they occur when every task is left to run to its end: each
  event of the batch has its task settled there, once. The job is finalised by the
  settlement that settles \<^verbatim>\<open>Promise.all\<close>, at the time of that settlement: it is marked
  \<^verbatim>\<open>FAILED\<close> by the first task of the batch that is rejected, with the message of that error,
  and \<^verbatim>\<open>COMPLETED\<close> by the last of them when all are fulfilled. The settlements \<open>later\<close> in
  the log happen after the job has been finalised: the tasks not yet settled go on as they
  would have, and the world ends as it would have. A batch of one event, with no other task
  in hand, ends as the call \<^verbatim>\<open>processEventWithRetry(processFn, event)\<close> does.
\<close>

theorem batch_job_finalised_by_promise_all:
  assumes "DAList.lookup (pendingBatches s) t = Some batch" and "events batch \<noteq> []"
    and "createProcessor (processorRegistry s) t = Some processor"
    and "run_timers (processTime s)
           (batch_tasks (process processor) (clock (env s)) (events batch) @ left_over (timers s))
           (env s) = (log, final)"
    and "promise_all (length (events batch)) log = (verdict, finalised, later)"
  shows
    "DAList.lookup (activeBatches (processBatch t s)) (uuid_counter s) =
       Some \<lparr>job_id = uuid_counter s, job_type = t, job_events = events batch,
             batchSize = length (events batch),
             job_status = (case verdict of Inr u \<Rightarrow> COMPLETED | Inl err \<Rightarrow> FAILED),
             job_createdAt = createdAt batch, startedAt = Some (clock (env s)),
             completedAt = finalised,
             job_error = (case verdict of Inr u \<Rightarrow> None | Inl err \<Rightarrow> Some (message err))\<rparr>
     \<and> finalised = Some (clock (env (processBatch t s)))
     \<and> run_timers (processTime s) (left_over (timers (processBatch t s)))
           (env (processBatch t s)) = (map orphan later, final)
     \<and> env (fireTimers (processBatch t s)) = final
     \<and> mset (map (\<lambda>(time, aw, event, out). event) (filter is_awaited log)) = mset (events batch)
     \<and> (verdict = Inr () \<longrightarrow> filter is_awaited later = [])
     \<and> (timers s = [] \<and> events batch = [event] \<longrightarrow>
          (case processEventWithRetry (process processor) event 3 (world (env s)) of
             (res, w', steps) \<Rightarrow>
               res \<noteq> Inl None
               \<and> verdict = (case res of Inr u \<Rightarrow> Inr () | Inl err \<Rightarrow> Inl (the err))
               \<and> later = []
               \<and> final = (env s)\<lparr>world := w',
                    clock := clock (env s) + sum_list (sleeps steps)
                             + int (waited (processTime s event) (process processor event)
                                      (world (env s)) (invocations steps)),
                    effects := effects (env s) @ replicate (invocations steps) (Processed event)\<rparr>))"
proof -
  note general = processBatch_promise_all [OF assms]
  have same: "processTime (processBatch t s) = processTime s"
    by (simp add: processBatch_def Let_def split: option.splits prod.splits sum.splits)
  have fire: "env (fireTimers (processBatch t s)) = final"
    using general(3) by (simp add: fireTimers_def same left_over_def)
  have single: "(case processEventWithRetry (process processor) event 3 (world (env s)) of
             (res, w', steps) \<Rightarrow>
               res \<noteq> Inl None
               \<and> verdict = (case res of Inr u \<Rightarrow> Inr () | Inl err \<Rightarrow> Inl (the err))
               \<and> later = []
               \<and> final = (env s)\<lparr>world := w',
                    clock := clock (env s) + sum_list (sleeps steps)
                             + int (waited (processTime s event) (process processor event)
                                      (world (env s)) (invocations steps)),
                    effects := effects (env s) @ replicate (invocations steps) (Processed event)\<rparr>)"
    if "timers s = []" "events batch = [event]"
  proof -
    obtain res w' steps where
      alone: "processEventWithRetry (process processor) event 3 (world (env s)) = (res, w', steps)"
      by (metis prod_cases3)
    from processBatch_single [OF assms(1) that(2) assms(3) that(1) assms(4,5) alone]
    show ?thesis by (simp add: alone)
  qed
  have single': "timers s = [] \<and> events batch = [event] \<longrightarrow>
          (case processEventWithRetry (process processor) event 3 (world (env s)) of
             (res, w', steps) \<Rightarrow>
               res \<noteq> Inl None
               \<and> verdict = (case res of Inr u \<Rightarrow> Inr () | Inl err \<Rightarrow> Inl (the err))
               \<and> later = []
               \<and> final = (env s)\<lparr>world := w',
                    clock := clock (env s) + sum_list (sleeps steps)
                             + int (waited (processTime s event) (process processor event)
                                      (world (env s)) (invocations steps)),
                    effects := effects (env s) @ replicate (invocations steps) (Processed event)\<rparr>)"
    using single by (intro impI) (elim conjE)
  show ?thesis
    by (intro conjI) (rule general(1) general(2) general(3) fire general(4) general(5) single')+
qed

text \<open>
  Three runs. Two events that a handler taking three seconds per call always rejects: both
  tasks have made their third call when the job is marked \<^verbatim>\<open>FAILED\<close>, at 12000, by the
  rejection of the first; the call of the second is still to settle, and its task is
  rejected after that. A third rejected event
  flushed after the two of \<open>failed_stock_batch\<close>: the third attempt left over from that
  batch is made between the first and the second attempt on the new event, and its rejection
  does not settle the new job. One event whose handler recovers at the third call.
\<close>

theorem batch_job_finalised_by_promise_all_witness:
  "run_timers (processTime slow_stock_batch)
     (batch_tasks (process stockProcessor) 0 [test_event ''evt-1'' STOCK_UPDATED ''bad'', test_event ''evt-2'' STOCK_UPDATED ''bad''] @ left_over (timers slow_stock_batch))
     (env slow_stock_batch) =
     ([(12000, True, test_event ''evt-1'' STOCK_UPDATED ''bad'', Inl (Error ''cannot process evt-1'')),
       (12000, True, test_event ''evt-2'' STOCK_UPDATED ''bad'', Inl (Error ''cannot process evt-2''))],
      \<lparr>world = 6, clock = 12000,
       effects = [Processed (test_event ''evt-1'' STOCK_UPDATED ''bad''), Processed (test_event ''evt-2'' STOCK_UPDATED ''bad''), Processed (test_event ''evt-1'' STOCK_UPDATED ''bad''), Processed (test_event ''evt-2'' STOCK_UPDATED ''bad''),
                  Processed (test_event ''evt-1'' STOCK_UPDATED ''bad''), Processed (test_event ''evt-2'' STOCK_UPDATED ''bad'')]\<rparr>)
   \<and> map_option (\<lambda>job. (job_status job, job_error job, completedAt job))
       (DAList.lookup (activeBatches (processBatch STOCK_UPDATED slow_stock_batch)) 0) =
       Some (FAILED, Some ''cannot process evt-1'', Some 12000)
   \<and> env (processBatch STOCK_UPDATED slow_stock_batch) =
       \<lparr>world = 6, clock = 12000,
        effects = [Processed (test_event ''evt-1'' STOCK_UPDATED ''bad''), Processed (test_event ''evt-2'' STOCK_UPDATED ''bad''), Processed (test_event ''evt-1'' STOCK_UPDATED ''bad''), Processed (test_event ''evt-2'' STOCK_UPDATED ''bad''),
                   Processed (test_event ''evt-1'' STOCK_UPDATED ''bad''), Processed (test_event ''evt-2'' STOCK_UPDATED ''bad'')]\<rparr>
   \<and> timers (processBatch STOCK_UPDATED slow_stock_batch) =
       [(12000, Settles \<lparr>fr_processFn = process stockProcessor, fr_event = test_event ''evt-2'' STOCK_UPDATED ''bad'',
                          fr_maxRetries = 3, fr_attempt = 3\<rparr>
                 (Inl (Error ''cannot process evt-2'')))]
   \<and> run_timers (processTime slow_stock_batch)
       (left_over (timers (processBatch STOCK_UPDATED slow_stock_batch)))
       (env (processBatch STOCK_UPDATED slow_stock_batch)) =
       ([(12000, False, test_event ''evt-2'' STOCK_UPDATED ''bad'', Inl (Error ''cannot process evt-2''))],
        \<lparr>world = 6, clock = 12000,
         effects = [Processed (test_event ''evt-1'' STOCK_UPDATED ''bad''), Processed (test_event ''evt-2'' STOCK_UPDATED ''bad''), Processed (test_event ''evt-1'' STOCK_UPDATED ''bad''), Processed (test_event ''evt-2'' STOCK_UPDATED ''bad''),
                    Processed (test_event ''evt-1'' STOCK_UPDATED ''bad''), Processed (test_event ''evt-2'' STOCK_UPDATED ''bad'')]\<rparr>)
   \<and> map_option (\<lambda>job. (job_status job, job_error job, completedAt job))
       (DAList.lookup (activeBatches (processBatch STOCK_UPDATED
          (addEventToBatch (test_event ''evt-3'' STOCK_UPDATED ''bad'') failed_stock_batch))) 1) =
       Some (FAILED, Some ''cannot process evt-3'', Some 6000)
   \<and> env (fireTimers (processBatch STOCK_UPDATED (addEventToBatch (test_event ''evt-3'' STOCK_UPDATED ''bad'') failed_stock_batch))) =
       \<lparr>world = 9, clock = 6000,
        effects = [Processed (test_event ''evt-1'' STOCK_UPDATED ''bad''), Processed (test_event ''evt-2'' STOCK_UPDATED ''bad''), Processed (test_event ''evt-1'' STOCK_UPDATED ''bad''), Processed (test_event ''evt-2'' STOCK_UPDATED ''bad''),
                   Processed (test_event ''evt-1'' STOCK_UPDATED ''bad''), Processed (test_event ''evt-3'' STOCK_UPDATED ''bad''), Processed (test_event ''evt-2'' STOCK_UPDATED ''bad''), Processed (test_event ''evt-3'' STOCK_UPDATED ''bad''),
                   Processed (test_event ''evt-3'' STOCK_UPDATED ''bad'')]\<rparr>
   \<and> processEventWithRetry (process recoveringProcessor) (test_event ''res-1'' STOCK_RESERVED ''{}'') 3 0 =
       (Inr (), 3, [Invoke, Sleep 1000, Invoke, Sleep 2000, Invoke])
   \<and> map_option (\<lambda>job. (job_status job, job_error job, completedAt job))
       (DAList.lookup (activeBatches (processBatch STOCK_RESERVED
          (addEventToBatch (test_event ''res-1'' STOCK_RESERVED ''{}'') (startup [recoveringProcessor] [] 0)))) 0) =
       Some (COMPLETED, None, Some 3000)
   \<and> env (fireTimers (processBatch STOCK_RESERVED
          (addEventToBatch (test_event ''res-1'' STOCK_RESERVED ''{}'') (startup [recoveringProcessor] [] 0)))) =
       \<lparr>world = 3, clock = 3000, effects = [Processed (test_event ''res-1'' STOCK_RESERVED ''{}''), Processed (test_event ''res-1'' STOCK_RESERVED ''{}''), Processed (test_event ''res-1'' STOCK_RESERVED ''{}'')]\<rparr>"
proof -
  let ?one = "test_event ''evt-1'' STOCK_UPDATED ''bad''"
  let ?two = "test_event ''evt-2'' STOCK_UPDATED ''bad''"
  let ?three = "test_event ''evt-3'' STOCK_UPDATED ''bad''"
  let ?res = "test_event ''res-1'' STOCK_RESERVED ''{}''"
  let ?six = "[Processed ?one, Processed ?two, Processed ?one, Processed ?two,
               Processed ?one, Processed ?two]"
  let ?slow = "\<lparr>batch_eventType = STOCK_UPDATED, events = [?one, ?two],
                createdAt = 0, maxSize = 2\<rparr>"
  have slow: "DAList.lookup (pendingBatches slow_stock_batch) STOCK_UPDATED = Some ?slow"
    "events ?slow \<noteq> []"
    "createProcessor (processorRegistry slow_stock_batch) STOCK_UPDATED = Some stockProcessor"
    "processTime slow_stock_batch = (\<lambda>event calls. 3000)"
    "timers slow_stock_batch = []" "uuid_counter slow_stock_batch = 0"
    "env slow_stock_batch = \<lparr>world = 0, clock = 0, effects = []\<rparr>"
    using stockProcessor_facts(4) [of "[]" 0]
    by (simp_all add: slow_stock_batch_def) (simp_all add: startup_def)
  have slow_log: "run_timers (processTime slow_stock_batch)
      (batch_tasks (process stockProcessor) (clock (env slow_stock_batch)) (events ?slow)
         @ left_over (timers slow_stock_batch)) (env slow_stock_batch) =
     ([(12000, True, ?one, Inl (Error ''cannot process evt-1'')),
       (12000, True, ?two, Inl (Error ''cannot process evt-2''))],
      \<lparr>world = 6, clock = 12000, effects = ?six\<rparr>)"
    by (simp add: slow batch_tasks_def left_over_def)
       (simp add: run_simps stockProcessor_facts(1) test_event_def)
  have slow_all: "promise_all (length (events ?slow))
      [(12000, True, ?one, Inl (Error ''cannot process evt-1'')),
       (12000, True, ?two, Inl (Error ''cannot process evt-2''))] =
     (Inl (Error ''cannot process evt-1''), Some 12000,
      [(12000, True, ?two, Inl (Error ''cannot process evt-2''))])"
    by (simp add: numeral_2_eq_2)
  note first = batch_job_finalised_by_promise_all [OF slow(1,2,3) slow_log slow_all]
  have w1: "run_timers (processTime slow_stock_batch)
     (batch_tasks (process stockProcessor) 0 [?one, ?two] @ left_over (timers slow_stock_batch))
     (env slow_stock_batch) =
     ([(12000, True, ?one, Inl (Error ''cannot process evt-1'')),
       (12000, True, ?two, Inl (Error ''cannot process evt-2''))],
      \<lparr>world = 6, clock = 12000, effects = ?six\<rparr>)"
    using slow_log by (simp add: slow)
  have w2: "map_option (\<lambda>job. (job_status job, job_error job, completedAt job))
       (DAList.lookup (activeBatches (processBatch STOCK_UPDATED slow_stock_batch)) 0) =
       Some (FAILED, Some ''cannot process evt-1'', Some 12000)"
    using first [THEN conjunct1] by (simp add: slow)
  have w3: "run_timers (processTime slow_stock_batch)
       (left_over (timers (processBatch STOCK_UPDATED slow_stock_batch)))
       (env (processBatch STOCK_UPDATED slow_stock_batch)) =
       ([(12000, False, ?two, Inl (Error ''cannot process evt-2''))],
        \<lparr>world = 6, clock = 12000, effects = ?six\<rparr>)"
    using first [THEN conjunct2, THEN conjunct2, THEN conjunct1] by (simp add: orphan_def)

  have slow_await: "await_all (processTime slow_stock_batch)
      (batch_tasks (process stockProcessor) (clock (env slow_stock_batch)) (events ?slow)
         @ left_over (timers slow_stock_batch)) (env slow_stock_batch) =
     (Inl (Error ''cannot process evt-1''),
      [(12000, True, Settles \<lparr>fr_processFn = process stockProcessor, fr_event = ?two,
                               fr_maxRetries = 3, fr_attempt = 3\<rparr>
                      (Inl (Error ''cannot process evt-2'')))],
      \<lparr>world = 6, clock = 12000, effects = ?six\<rparr>)"
    by (simp add: slow batch_tasks_def left_over_def)
       (simp add: run_simps stockProcessor_facts(1) test_event_def)
  note slow_state = processBatch_await [OF slow(1,2,3) slow_await]
  have w2a: "env (processBatch STOCK_UPDATED slow_stock_batch) =
       \<lparr>world = 6, clock = 12000, effects = ?six\<rparr>"
    unfolding slow_state by simp
  have w2b: "timers (processBatch STOCK_UPDATED slow_stock_batch) =
       [(12000, Settles \<lparr>fr_processFn = process stockProcessor, fr_event = ?two,
                          fr_maxRetries = 3, fr_attempt = 3\<rparr>
                 (Inl (Error ''cannot process evt-2'')))]"
    unfolding slow_state by simp

  let ?again = "addEventToBatch ?three failed_stock_batch"
  let ?next = "\<lparr>batch_eventType = STOCK_UPDATED, events = [?three],
                createdAt = 3000, maxSize = 2\<rparr>"
  have handler: "createProcessor (processorRegistry failed_stock_batch) STOCK_UPDATED =
      Some stockProcessor"
    unfolding failed_stock_batch_state(1) by (rule stockProcessor_facts(4))
  have again_state: "?again = failed_stock_batch
      \<lparr>pendingBatches := DAList.update STOCK_UPDATED ?next (pendingBatches failed_stock_batch)\<rparr>"
    using handler
    by (simp add: addEventToBatch_def Let_def stockProcessor_facts failed_stock_batch_state
        test_event_def)
  have again: "DAList.lookup (pendingBatches ?again) STOCK_UPDATED = Some ?next"
    "events ?next \<noteq> []"
    "createProcessor (processorRegistry ?again) STOCK_UPDATED = Some stockProcessor"
    unfolding again_state using handler by simp_all
  have again_log: "run_timers (processTime ?again)
      (batch_tasks (process stockProcessor) (clock (env ?again)) (events ?next)
         @ left_over (timers ?again)) (env ?again) =
     ([(3000, False, ?two, Inl (Error ''cannot process evt-2'')),
       (6000, True, ?three, Inl (Error ''cannot process evt-3''))],
      \<lparr>world = 9, clock = 6000,
       effects = [Processed ?one, Processed ?two, Processed ?one, Processed ?two,
                  Processed ?one, Processed ?three, Processed ?two, Processed ?three,
                  Processed ?three]\<rparr>)"
    unfolding again_state
    by (simp add: failed_stock_batch_state batch_tasks_def left_over_def)
       (simp add: run_simps stockProcessor_facts(1) test_event_def)
  have again_all: "promise_all (length (events ?next))
      [(3000, False, ?two, Inl (Error ''cannot process evt-2'')),
       (6000, True, ?three, Inl (Error ''cannot process evt-3''))] =
     (Inl (Error ''cannot process evt-3''), Some 6000, [])"
    by simp
  note second = batch_job_finalised_by_promise_all [OF again again_log again_all]
  have counter: "uuid_counter ?again = 1"
    unfolding again_state by (simp add: failed_stock_batch_state)
  have w4: "map_option (\<lambda>job. (job_status job, job_error job, completedAt job))
       (DAList.lookup (activeBatches (processBatch STOCK_UPDATED ?again)) 1) =
       Some (FAILED, Some ''cannot process evt-3'', Some 6000)"
    using second [THEN conjunct1] by (simp add: counter)
  have w5: "env (fireTimers (processBatch STOCK_UPDATED ?again)) =
       \<lparr>world = 9, clock = 6000,
        effects = [Processed ?one, Processed ?two, Processed ?one, Processed ?two,
                   Processed ?one, Processed ?three, Processed ?two, Processed ?three,
                   Processed ?three]\<rparr>"
    using second [THEN conjunct2, THEN conjunct2, THEN conjunct2, THEN conjunct1] .

  let ?init = "startup [recoveringProcessor] [] (0 :: nat)"
  let ?alone = "addEventToBatch ?res ?init"
  let ?single = "\<lparr>batch_eventType = STOCK_RESERVED, events = [?res],
                  createdAt = 0, maxSize = 2\<rparr>"
  have alone_state: "?alone =
      ?init\<lparr>pendingBatches := DAList.update STOCK_RESERVED ?single (pendingBatches ?init)\<rparr>"
    using recoveringProcessor_facts(4) [of "[]" 0]
    by (simp add: addEventToBatch_def Let_def recoveringProcessor_facts test_event_def)
       (simp add: startup_def)
  have alone: "DAList.lookup (pendingBatches ?alone) STOCK_RESERVED = Some ?single"
    "events ?single \<noteq> []"
    "createProcessor (processorRegistry ?alone) STOCK_RESERVED = Some recoveringProcessor"
    unfolding alone_state using recoveringProcessor_facts(4) [of "[]" 0] by simp_all
  have alone_facts: "timers ?alone = []" "events ?single = [?res]" "uuid_counter ?alone = 0"
    "env ?alone = \<lparr>world = 0, clock = 0, effects = []\<rparr>"
    "processTime ?alone = (\<lambda>event w'. 0)"
    unfolding alone_state by (simp_all add: startup_def)
  have alone_log: "run_timers (processTime ?alone)
      (batch_tasks (process recoveringProcessor) (clock (env ?alone)) (events ?single)
         @ left_over (timers ?alone)) (env ?alone) =
     ([(3000, True, ?res, Inr ())],
      \<lparr>world = 3, clock = 3000,
       effects = [Processed ?res, Processed ?res, Processed ?res]\<rparr>)"
    unfolding alone_facts
    by (simp add: batch_tasks_def left_over_def)
       (simp add: run_simps recoveringProcessor_facts(1))
  have alone_all: "promise_all (length (events ?single)) [(3000, True, ?res, Inr ())] =
     (Inr (), Some 3000, [])"
    by simp
  have loop: "processEventWithRetry (process recoveringProcessor) ?res 3 0 =
       (Inr (), 3, [Invoke, Sleep 1000, Invoke, Sleep 2000, Invoke])"
    by (simp add: processEventWithRetry_def processEventWithRetry_loop.simps
        recoveringProcessor_facts(1) numeral_3_eq_3)
  note third = batch_job_finalised_by_promise_all [OF alone alone_log alone_all, of ?res]
  have w7: "map_option (\<lambda>job. (job_status job, job_error job, completedAt job))
       (DAList.lookup (activeBatches (processBatch STOCK_RESERVED ?alone)) 0) =
       Some (COMPLETED, None, Some 3000)"
    using third [THEN conjunct1] by (simp add: alone_facts)
  have w8: "env (fireTimers (processBatch STOCK_RESERVED ?alone)) =
       \<lparr>world = 3, clock = 3000, effects = [Processed ?res, Processed ?res, Processed ?res]\<rparr>"
    using third [THEN conjunct2, THEN conjunct2, THEN conjunct2, THEN conjunct1] .
  show ?thesis
    using w1 w2 w2a w2b w3 w4 w5 loop w7 w8 by simp
qed

text \<open>
  Claim C2 as stated fails: a batch of two stock events that the handler always rejects, at
  once. The job is marked \<^verbatim>\<open>FAILED\<close> with the error of the first event and
  \<^verbatim>\<open>completedAt = 3000\<close> when the handler has been called three times on the first event and
  only twice on the second; the task of the second event still holds a timer for its third
  attempt, which is made after the job has been finalised.
\<close>

theorem batch_finalised_before_tasks_end_counterexample:
  "map_option (\<lambda>job. (job_status job, job_error job, completedAt job))
     (DAList.lookup (activeBatches failed_stock_batch) 0) =
     Some (FAILED, Some ''cannot process evt-1'', Some 3000)
   \<and> effects (env failed_stock_batch) =
       [Processed (test_event ''evt-1'' STOCK_UPDATED ''bad''), Processed (test_event ''evt-2'' STOCK_UPDATED ''bad''), Processed (test_event ''evt-1'' STOCK_UPDATED ''bad''), Processed (test_event ''evt-2'' STOCK_UPDATED ''bad''), Processed (test_event ''evt-1'' STOCK_UPDATED ''bad'')]
   \<and> timers failed_stock_batch =
       [(3000, Attempt \<lparr>fr_processFn = process stockProcessor, fr_event = test_event ''evt-2'' STOCK_UPDATED ''bad'',
                        fr_maxRetries = 3, fr_attempt = 3\<rparr>)]
   \<and> effects (env (fireTimers failed_stock_batch)) =
       [Processed (test_event ''evt-1'' STOCK_UPDATED ''bad''), Processed (test_event ''evt-2'' STOCK_UPDATED ''bad''), Processed (test_event ''evt-1'' STOCK_UPDATED ''bad''), Processed (test_event ''evt-2'' STOCK_UPDATED ''bad''), Processed (test_event ''evt-1'' STOCK_UPDATED ''bad''),
        Processed (test_event ''evt-2'' STOCK_UPDATED ''bad'')]"
proof -
  let ?init = "startup [stockProcessor] [] (0 :: nat)"
  let ?one = "test_event ''evt-1'' STOCK_UPDATED ''bad''"
  let ?two = "test_event ''evt-2'' STOCK_UPDATED ''bad''"
  let ?batch = "\<lparr>batch_eventType = STOCK_UPDATED, events = [?one, ?two],
                 createdAt = clock (env ?init), maxSize = getBatchSize stockProcessor\<rparr>"
  let ?full = "?init\<lparr>pendingBatches := DAList.update STOCK_UPDATED ?batch (pendingBatches ?init)\<rparr>"
  have s0: "DAList.lookup (pendingBatches ?init) STOCK_UPDATED = None" "clock (env ?init) = 0"
    "uuid_counter ?init = 0" "env ?init = \<lparr>world = 0, clock = 0, effects = []\<rparr>"
    "timers ?init = []" "processTime ?init = (\<lambda>event w'. 0)"
    by (simp_all add: startup_def)
  have ev: "ev_type ?one = STOCK_UPDATED" "ev_type ?two = STOCK_UPDATED"
    by (simp_all add: test_event_def)
  have all: "failed_stock_batch = processBatch STOCK_UPDATED ?full"
    unfolding failed_stock_batch_def
    by (rule filling_append_flushes) (simp_all add: stockProcessor_facts s0 ev)
  have s1: "DAList.lookup (pendingBatches ?full) STOCK_UPDATED = Some ?batch" "events ?batch \<noteq> []"
    "createProcessor (processorRegistry ?full) STOCK_UPDATED = Some stockProcessor"
    by (simp_all add: stockProcessor_facts)
  have run: "await_all (processTime ?full)
      (batch_tasks (process stockProcessor) (clock (env ?full)) (events ?batch)
         @ left_over (timers ?full)) (env ?full) =
     (Inl (Error ''cannot process evt-1''),
      [(3000, True, Attempt \<lparr>fr_processFn = process stockProcessor, fr_event = ?two,
                              fr_maxRetries = 3, fr_attempt = 3\<rparr>)],
      \<lparr>world = 5, clock = 3000,
       effects = [Processed ?one, Processed ?two, Processed ?one, Processed ?two,
                  Processed ?one]\<rparr>)"
    by (simp add: s0 batch_tasks_def left_over_def)
       (simp add: run_simps stockProcessor_facts(1) test_event_def)
  note pb = processBatch_await [OF s1 run]
  have job: "map_option (\<lambda>job. (job_status job, job_error job, completedAt job))
      (DAList.lookup (activeBatches failed_stock_batch) 0) =
      Some (FAILED, Some ''cannot process evt-1'', Some 3000)"
    unfolding all pb by (simp add: s0)
  have called: "effects (env failed_stock_batch) =
      [Processed ?one, Processed ?two, Processed ?one, Processed ?two, Processed ?one]"
    unfolding all pb by simp
  have waiting: "timers failed_stock_batch =
      [(3000, Attempt \<lparr>fr_processFn = process stockProcessor, fr_event = ?two,
                        fr_maxRetries = 3, fr_attempt = 3\<rparr>)]"
    unfolding all pb by simp
  have "env (fireTimers failed_stock_batch) =
      \<lparr>world = 6, clock = 3000,
       effects = [Processed ?one, Processed ?two, Processed ?one, Processed ?two,
                  Processed ?one, Processed ?two]\<rparr>"
    unfolding fireTimers_def waiting
    unfolding all pb
    by (simp add: s0) (simp add: run_simps stockProcessor_facts(1) test_event_def)
  then show ?thesis
    using job called waiting by simp
qed

end
